theory Spec2Isabelle
  imports Main "HOL-Library.Word" "HOL-Library.Sublist"
begin

section \<open>Strings\<close>

text \<open>
  A JavaScript string is a sequence of 16-bit code units.  The regular expressions of
  \<^verbatim>\<open>md-render.js\<close> carry no flag, so they work on code units, \<^verbatim>\<open>^\<close> and \<^verbatim>\<open>$\<close>
  match only at the two ends of the subject, and \<^verbatim>\<open>.\<close> excludes the four line
  terminators.
\<close>

type_synonym jschar = "16 word"
type_synonym jsstring = "jschar list"

definition str :: "string \<Rightarrow> jsstring" where
  "str s = map of_char s"

text \<open>The class \<^verbatim>\<open>\s\<close>, which is also what \<^verbatim>\<open>String.prototype.trim\<close> strips:
  WhiteSpace and LineTerminator of ECMAScript.\<close>

definition isWhiteSpace :: "jschar \<Rightarrow> bool" where
  "isWhiteSpace c =
     (c \<in> set [0x09, 0x0A, 0x0B, 0x0C, 0x0D, 0x20, 0xA0, 0x1680,
                0x2028, 0x2029, 0x202F, 0x205F, 0x3000, 0xFEFF]
      \<or> (0x2000 \<le> c \<and> c \<le> 0x200A))"

definition isLineTerminator :: "jschar \<Rightarrow> bool" where
  "isLineTerminator c = (c \<in> set [0x0A, 0x0D, 0x2028, 0x2029])"

text \<open>The class \<^verbatim>\<open>\d\<close>: the ASCII digits.\<close>

definition isDigit :: "jschar \<Rightarrow> bool" where
  "isDigit c = (0x30 \<le> c \<and> c \<le> 0x39)"

definition trim :: "jsstring \<Rightarrow> jsstring" where
  "trim s = rev (dropWhile isWhiteSpace (rev (dropWhile isWhiteSpace s)))"

definition startsWith :: "jsstring \<Rightarrow> jsstring \<Rightarrow> bool" where
  "startsWith s p = (take (length p) s = p)"

text \<open>\<^verbatim>\<open>text.split('\n')\<close>: the pieces between the line feeds; the empty string
  gives one empty piece.\<close>

fun split_acc :: "jsstring \<Rightarrow> jsstring \<Rightarrow> jsstring list" where
  "split_acc cur [] = [cur]"
| "split_acc cur (c # cs) =
     (if c = 0x0A then cur # split_acc [] cs else split_acc (cur @ [c]) cs)"

definition split_lines :: "jsstring \<Rightarrow> jsstring list" where
  "split_lines s = split_acc [] s"

text \<open>\<^verbatim>\<open>xs.join('\n')\<close>.\<close>

fun join_lines :: "jsstring list \<Rightarrow> jsstring" where
  "join_lines [] = []"
| "join_lines [x] = x"
| "join_lines (x # y # ys) = x @ [0x0A] @ join_lines (y # ys)"


section \<open>The block patterns\<close>

text \<open>
  Each pattern of \<^verbatim>\<open>PATTERNS\<close> is a function from the subject to the capture the
  code reads (\<open>None\<close>: no match); \<^verbatim>\<open>p.test(s)\<close> is \<open>p s \<noteq> None\<close>.

  \<open>ws_rest\<close> is the common tail \<^verbatim>\<open>\s+(.+)$\<close>.  The greedy \<^verbatim>\<open>\s+\<close> first takes the
  whole run of white space and gives characters back one at a time; for each length
  \<^verbatim>\<open>(.+)$\<close> succeeds iff what follows is non-empty and free of line terminators up to
  the end of the subject.  \<open>try_ws k r\<close> tries the lengths \<open>k, k - 1, \<dots>, 1\<close>.
\<close>

fun try_ws :: "nat \<Rightarrow> jsstring \<Rightarrow> jsstring option" where
  "try_ws 0 r = None"
| "try_ws (Suc k) r =
     (let g = drop (Suc k) r
      in if g \<noteq> [] \<and> list_all (\<lambda>c. \<not> isLineTerminator c) g then Some g
         else try_ws k r)"

definition ws_rest :: "jsstring \<Rightarrow> jsstring option" where
  "ws_rest r = try_ws (length (takeWhile isWhiteSpace r)) r"

text \<open>\<^verbatim>\<open>ordered: /^\d+\.\s+(.+)$/\<close>.  A digit is never a dot, so \<^verbatim>\<open>\d+\<close> takes the
  whole run of digits.\<close>

definition PATTERNS_ordered :: "jsstring \<Rightarrow> jsstring option" where
  "PATTERNS_ordered s =
     (let digits = takeWhile isDigit s; r = dropWhile isDigit s
      in if digits \<noteq> [] \<and> startsWith r [0x2E] then ws_rest (drop 1 r) else None)"

text \<open>\<^verbatim>\<open>unordered: /^[-*+]\s+(.+)$/\<close>.\<close>

definition PATTERNS_unordered :: "jsstring \<Rightarrow> jsstring option" where
  "PATTERNS_unordered s =
     (case s of
        [] \<Rightarrow> None
      | c # r \<Rightarrow> if c \<in> set [0x2D, 0x2A, 0x2B] then ws_rest r else None)"

text \<open>\<^verbatim>\<open>heading: /^(#{1,6})\s+(.+)$/\<close>, giving the length of the first capture and
  the second capture.  After fewer hashes than the run holds the next character is a
  hash, not white space, so the match needs a run of one to six.\<close>

definition PATTERNS_heading :: "jsstring \<Rightarrow> (nat \<times> jsstring) option" where
  "PATTERNS_heading s =
     (let n = length (takeWhile (\<lambda>c. c = 0x23) s)
      in if 1 \<le> n \<and> n \<le> 6 then map_option (\<lambda>g. (n, g)) (ws_rest (drop n s)) else None)"

text \<open>\<^verbatim>\<open>hr: /^(-{3,}|\*{3,}|_{3,})$/\<close>.\<close>

definition PATTERNS_hr :: "jsstring \<Rightarrow> bool" where
  "PATTERNS_hr s =
     (3 \<le> length s \<and>
      (list_all (\<lambda>c. c = 0x2D) s \<or> list_all (\<lambda>c. c = 0x2A) s \<or> list_all (\<lambda>c. c = 0x5F) s))"

text \<open>\<^verbatim>\<open>codeBlockStart: /^```/\<close>.\<close>

definition PATTERNS_codeBlockStart :: "jsstring \<Rightarrow> bool" where
  "PATTERNS_codeBlockStart s = startsWith s [0x60, 0x60, 0x60]"


section \<open>Nodes\<close>

datatype inline =
    Text jsstring
  | Bold jsstring
  | Italic jsstring
  | Strike jsstring
  | Code jsstring
  | Link jsstring jsstring
  | ImageNode jsstring jsstring

text \<open>A list item's \<^verbatim>\<open>nestedList\<close> is \<^verbatim>\<open>null\<close> or a list node on the items of the main
  loop, and is not set on the items of a nested list; \<open>None\<close> stands for both.\<close>

datatype block =
    Heading nat "inline list"
  | Paragraph "inline list"
  | Hr
  | Codeblock jsstring jsstring
  | Blockquote "inline list"
  | ListNode bool "listitem list"
and listitem =
    ListItem "inline list" "block option"


section \<open>The inline tokenizer\<close>

text \<open>
  A rule gives the node its handler builds and \<^verbatim>\<open>match[0]\<close>, the matched prefix.
  Every character class of the six rules excludes the delimiter that follows it, so
  the greedy class takes the whole run and no shorter run can match.
\<close>

definition expect :: "jsstring \<Rightarrow> jsstring \<Rightarrow> jsstring option" where
  "expect p s = (if startsWith s p then Some (drop (length p) s) else None)"

text \<open>\<^verbatim>\<open>/^!\[([^\]]*)\]\(([^)]+)\)/\<close>\<close>

definition rule_image :: "jsstring \<Rightarrow> (inline \<times> jsstring) option" where
  "rule_image s =
     (case expect (str ''!['') s of
        None \<Rightarrow> None
      | Some r \<Rightarrow>
          let alt = takeWhile (\<lambda>c. c \<noteq> 0x5D) r
          in (case expect (str '']('') (dropWhile (\<lambda>c. c \<noteq> 0x5D) r) of
                None \<Rightarrow> None
              | Some r1 \<Rightarrow>
                  let src = takeWhile (\<lambda>c. c \<noteq> 0x29) r1
                  in if src \<noteq> [] \<and> startsWith (dropWhile (\<lambda>c. c \<noteq> 0x29) r1) (str '')'')
                     then Some (ImageNode alt src,
                                str ''!['' @ alt @ str '']('' @ src @ str '')'')
                     else None))"

text \<open>\<^verbatim>\<open>/^\[([^\]]+)\]\(([^)]+)\)/\<close>\<close>

definition rule_link :: "jsstring \<Rightarrow> (inline \<times> jsstring) option" where
  "rule_link s =
     (case expect (str ''['') s of
        None \<Rightarrow> None
      | Some r \<Rightarrow>
          let txt = takeWhile (\<lambda>c. c \<noteq> 0x5D) r
          in if txt = [] then None
             else (case expect (str '']('') (dropWhile (\<lambda>c. c \<noteq> 0x5D) r) of
                None \<Rightarrow> None
              | Some r1 \<Rightarrow>
                  let href = takeWhile (\<lambda>c. c \<noteq> 0x29) r1
                  in if href \<noteq> [] \<and> startsWith (dropWhile (\<lambda>c. c \<noteq> 0x29) r1) (str '')'')
                     then Some (Link txt href,
                                str ''['' @ txt @ str '']('' @ href @ str '')'')
                     else None))"

text \<open>A capture \<^verbatim>\<open>([^...]+)\<close> between an opening delimiter and a closing one.\<close>

definition delimited ::
  "jsstring \<Rightarrow> (jschar \<Rightarrow> bool) \<Rightarrow> jsstring \<Rightarrow> jsstring \<Rightarrow> jsstring option" where
  "delimited opn excluded cls s =
     (case expect opn s of
        None \<Rightarrow> None
      | Some r \<Rightarrow>
          let content = takeWhile (\<lambda>c. \<not> excluded c) r
          in if content \<noteq> [] \<and> startsWith (dropWhile (\<lambda>c. \<not> excluded c) r) cls
             then Some content else None)"

text \<open>\<^verbatim>\<open>/^`([^`]+)`/\<close>\<close>

definition rule_code :: "jsstring \<Rightarrow> (inline \<times> jsstring) option" where
  "rule_code s =
     map_option (\<lambda>c. (Code c, [0x60] @ c @ [0x60]))
       (delimited [0x60] (\<lambda>c. c = 0x60) [0x60] s)"

text \<open>\<^verbatim>\<open>/^(\*\*|__)([^*_]+)\1/\<close>: the alternatives in their order, the back reference
  being the alternative taken.\<close>

definition starOrUnderscore :: "jschar \<Rightarrow> bool" where
  "starOrUnderscore c = (c = 0x2A \<or> c = 0x5F)"

definition rule_bold :: "jsstring \<Rightarrow> (inline \<times> jsstring) option" where
  "rule_bold s =
     (case delimited (str ''**'') starOrUnderscore (str ''**'') s of
        Some c \<Rightarrow> Some (Bold c, str ''**'' @ c @ str ''**'')
      | None \<Rightarrow>
          map_option (\<lambda>c. (Bold c, str ''__'' @ c @ str ''__''))
            (delimited (str ''__'') starOrUnderscore (str ''__'') s))"

text \<open>\<^verbatim>\<open>/^(\*|_)([^*_]+)\1/\<close>\<close>

definition rule_italic :: "jsstring \<Rightarrow> (inline \<times> jsstring) option" where
  "rule_italic s =
     (case delimited (str ''*'') starOrUnderscore (str ''*'') s of
        Some c \<Rightarrow> Some (Italic c, str ''*'' @ c @ str ''*'')
      | None \<Rightarrow>
          map_option (\<lambda>c. (Italic c, str ''_'' @ c @ str ''_''))
            (delimited (str ''_'') starOrUnderscore (str ''_'') s))"

text \<open>\<^verbatim>\<open>/^~~([^~]+)~~/\<close>\<close>

definition rule_strike :: "jsstring \<Rightarrow> (inline \<times> jsstring) option" where
  "rule_strike s =
     map_option (\<lambda>c. (Strike c, str ''~~'' @ c @ str ''~~''))
       (delimited (str ''~~'') (\<lambda>c. c = 0x7E) (str ''~~'') s)"

definition rules :: "(jsstring \<Rightarrow> (inline \<times> jsstring) option) list" where
  "rules = [rule_image, rule_link, rule_code, rule_bold, rule_italic, rule_strike]"

text \<open>The \<^verbatim>\<open>for ... of rules\<close> loop: the first rule that matches, in the table's order.\<close>

fun first_match ::
  "(jsstring \<Rightarrow> (inline \<times> jsstring) option) list \<Rightarrow> jsstring \<Rightarrow> (inline \<times> jsstring) option" where
  "first_match [] s = None"
| "first_match (r # rs) s = (case r s of Some m \<Rightarrow> Some m | None \<Rightarrow> first_match rs s)"

text \<open>\<^verbatim>\<open>remaining.search(/[`*_~!\[]/)\<close>: the index of the first special character.\<close>

definition isSpecial :: "jschar \<Rightarrow> bool" where
  "isSpecial c = (c \<in> set [0x60, 0x2A, 0x5F, 0x7E, 0x21, 0x5B])"

fun search_special :: "jsstring \<Rightarrow> nat option" where
  "search_special [] = None"
| "search_special (c # cs) =
     (if isSpecial c then Some 0 else map_option Suc (search_special cs))"

text \<open>One turn of the \<^verbatim>\<open>while (remaining.length > 0)\<close> loop: the token pushed and the
  new value of \<^verbatim>\<open>remaining\<close>.\<close>

definition inline_step :: "jsstring \<Rightarrow> inline \<times> jsstring" where
  "inline_step remaining =
     (case first_match rules remaining of
        Some (token, m0) \<Rightarrow> (token, drop (length m0) remaining)
      | None \<Rightarrow>
          let len = (case search_special remaining of
                       None \<Rightarrow> length remaining
                     | Some nextSpecial \<Rightarrow> if nextSpecial = 0 then 1 else nextSpecial)
          in (Text (take len remaining), drop len remaining))"

lemma expect_Some: "expect p s = Some r \<Longrightarrow> s = p @ r"
  by (auto simp: expect_def startsWith_def split: if_splits) (metis append_take_drop_id)

lemma delimited_Some:
  assumes "delimited opn excluded cls s = Some c"
  shows "c \<noteq> [] \<and> (\<exists>r. s = opn @ c @ cls @ r)"
proof -
  from assms obtain r where r: "expect opn s = Some r"
    and c: "c = takeWhile (\<lambda>c. \<not> excluded c) r" "c \<noteq> []"
    and cl: "startsWith (dropWhile (\<lambda>c. \<not> excluded c) r) cls"
    by (auto simp: delimited_def Let_def split: option.splits if_splits)
  from cl have "dropWhile (\<lambda>c. \<not> excluded c) r = cls @ drop (length cls) (dropWhile (\<lambda>c. \<not> excluded c) r)"
    by (metis append_take_drop_id startsWith_def)
  then have "r = c @ cls @ drop (length cls) (dropWhile (\<lambda>c. \<not> excluded c) r)"
    using c(1) by (metis takeWhile_dropWhile_id)
  with expect_Some[OF r] c(2) show ?thesis by blast
qed

lemma rule_image_Some:
  assumes "rule_image s = Some (tok, m0)"
  shows "\<exists>alt src r. tok = ImageNode alt src \<and> m0 = str ''!['' @ alt @ str '']('' @ src @ str '')''
           \<and> s = m0 @ r"
proof -
  from assms obtain r r1 where r: "expect (str ''!['') s = Some r"
    and r1: "expect (str '']('') (dropWhile (\<lambda>c. c \<noteq> 0x5D) r) = Some r1"
    and src: "startsWith (dropWhile (\<lambda>c. c \<noteq> 0x29) r1) (str '')'')"
    and tok: "tok = ImageNode (takeWhile (\<lambda>c. c \<noteq> 0x5D) r) (takeWhile (\<lambda>c. c \<noteq> 0x29) r1)"
    and m0: "m0 = str ''!['' @ takeWhile (\<lambda>c. c \<noteq> 0x5D) r @ str '']('' @ takeWhile (\<lambda>c. c \<noteq> 0x29) r1 @ str '')''"
    by (auto simp: rule_image_def Let_def split: option.splits if_splits)
  have a: "r = takeWhile (\<lambda>c. c \<noteq> 0x5D) r @ str '']('' @ r1"
    using expect_Some[OF r1] by (metis takeWhile_dropWhile_id)
  from src have "dropWhile (\<lambda>c. c \<noteq> 0x29) r1 = str '')'' @ drop (length (str '')'')) (dropWhile (\<lambda>c. c \<noteq> 0x29) r1)"
    by (metis append_take_drop_id startsWith_def)
  then have b: "r1 = takeWhile (\<lambda>c. c \<noteq> 0x29) r1 @ str '')'' @ drop (length (str '')'')) (dropWhile (\<lambda>c. c \<noteq> 0x29) r1)"
    by (metis takeWhile_dropWhile_id)
  have "s = m0 @ drop (length (str '')'')) (dropWhile (\<lambda>c. c \<noteq> 0x29) r1)"
    unfolding m0 using expect_Some[OF r] a b by (metis append.assoc)
  with tok m0 show ?thesis by blast
qed

lemma rule_link_Some:
  assumes "rule_link s = Some (tok, m0)"
  shows "\<exists>txt href r. tok = Link txt href \<and> m0 = str ''['' @ txt @ str '']('' @ href @ str '')''
           \<and> s = m0 @ r"
proof -
  from assms obtain r r1 where r: "expect (str ''['') s = Some r"
    and r1: "expect (str '']('') (dropWhile (\<lambda>c. c \<noteq> 0x5D) r) = Some r1"
    and src: "startsWith (dropWhile (\<lambda>c. c \<noteq> 0x29) r1) (str '')'')"
    and tok: "tok = Link (takeWhile (\<lambda>c. c \<noteq> 0x5D) r) (takeWhile (\<lambda>c. c \<noteq> 0x29) r1)"
    and m0: "m0 = str ''['' @ takeWhile (\<lambda>c. c \<noteq> 0x5D) r @ str '']('' @ takeWhile (\<lambda>c. c \<noteq> 0x29) r1 @ str '')''"
    by (auto simp: rule_link_def Let_def split: option.splits if_splits)
  have a: "r = takeWhile (\<lambda>c. c \<noteq> 0x5D) r @ str '']('' @ r1"
    using expect_Some[OF r1] by (metis takeWhile_dropWhile_id)
  from src have "dropWhile (\<lambda>c. c \<noteq> 0x29) r1 = str '')'' @ drop (length (str '')'')) (dropWhile (\<lambda>c. c \<noteq> 0x29) r1)"
    by (metis append_take_drop_id startsWith_def)
  then have b: "r1 = takeWhile (\<lambda>c. c \<noteq> 0x29) r1 @ str '')'' @ drop (length (str '')'')) (dropWhile (\<lambda>c. c \<noteq> 0x29) r1)"
    by (metis takeWhile_dropWhile_id)
  have "s = m0 @ drop (length (str '')'')) (dropWhile (\<lambda>c. c \<noteq> 0x29) r1)"
    unfolding m0 using expect_Some[OF r] a b by (metis append.assoc)
  with tok m0 show ?thesis by blast
qed

lemma first_match_rules_Some:
  assumes "first_match rules s = Some (tok, m0)"
  shows "m0 \<noteq> [] \<and> (\<exists>r. s = m0 @ r)"
proof -
  consider "rule_image s = Some (tok, m0)" | "rule_link s = Some (tok, m0)"
    | "rule_code s = Some (tok, m0)" | "rule_bold s = Some (tok, m0)"
    | "rule_italic s = Some (tok, m0)" | "rule_strike s = Some (tok, m0)"
    using assms by (auto simp: rules_def split: option.splits)
  then show ?thesis
  proof cases
    case 1
    from rule_image_Some[OF 1] show ?thesis by (auto simp: str_def)
  next
    case 2
    from rule_link_Some[OF 2] show ?thesis by (auto simp: str_def)
  next
    case 3
    then show ?thesis by (auto simp: rule_code_def dest: delimited_Some)
  next
    case 4
    then show ?thesis
      by (auto simp: rule_bold_def split: option.splits dest!: delimited_Some)
  next
    case 5
    then show ?thesis
      by (auto simp: rule_italic_def split: option.splits dest!: delimited_Some)
  next
    case 6
    then show ?thesis by (auto simp: rule_strike_def dest!: delimited_Some)
  qed
qed

lemma search_special_bound: "search_special s = Some n \<Longrightarrow> n < length s"
  by (induction s arbitrary: n) (auto split: if_splits)

lemma inline_step_shrinks:
  assumes "remaining \<noteq> []"
  shows "length (snd (inline_step remaining)) < length remaining"
proof (cases "first_match rules remaining")
  case None
  then show ?thesis using assms
    by (auto simp: inline_step_def Let_def split: option.splits dest: search_special_bound)
next
  case (Some m)
  obtain tok m0 where m: "m = (tok, m0)" by (cases m)
  from first_match_rules_Some[OF Some[unfolded m]] have "m0 \<noteq> []" by simp
  then show ?thesis using assms Some m by (simp add: inline_step_def)
qed

text \<open>The \<^verbatim>\<open>while (remaining.length > 0)\<close> loop of \<^verbatim>\<open>parseInline\<close>.\<close>

function tokenize :: "jsstring \<Rightarrow> inline list \<Rightarrow> inline list" where
  "tokenize remaining tokens =
     (if length remaining > 0
      then (case inline_step remaining of
              (token, rest) \<Rightarrow> tokenize rest (tokens @ [token]))
      else tokens)"
  by pat_completeness auto
termination
  apply (relation "measure (\<lambda>(remaining, tokens). length remaining)")
   apply simp
  subgoal for remaining tokens token rest
    using inline_step_shrinks[of remaining] by (cases "inline_step remaining") auto
  done

declare tokenize.simps [simp del]

text \<open>The body of the \<^verbatim>\<open>reduce\<close> that merges adjacent text nodes;
  \<^verbatim>\<open>last?.type\<close> is undefined on the empty accumulator.\<close>

fun merge_step :: "inline list \<Rightarrow> inline \<Rightarrow> inline list" where
  "merge_step acc (Text c) =
     (if acc = [] then [Text c]
      else (case last acc of
              Text c0 \<Rightarrow> butlast acc @ [Text (c0 @ c)]
            | _ \<Rightarrow> acc @ [Text c]))"
| "merge_step acc token = acc @ [token]"

definition parseInline :: "jsstring \<Rightarrow> inline list" where
  "parseInline text =
     (if text = [] then [Text []]
      else foldl merge_step [] (tokenize text []))"


section \<open>The block scanner\<close>

text \<open>
  \<^verbatim>\<open>lines[i].trim()\<close> raises a TypeError when \<open>i\<close> is not an index of \<open>lines\<close>; the
  functions that read a line with no bound check of their own return \<open>None\<close> there.
  Inside the loops the read follows the test \<^verbatim>\<open>i < lines.length\<close>.
\<close>

definition line_at :: "jsstring list \<Rightarrow> nat \<Rightarrow> jsstring option" where
  "line_at lines i = (if i < length lines then Some (lines ! i) else None)"

function code_loop :: "jsstring list \<Rightarrow> nat \<Rightarrow> jsstring list \<Rightarrow> nat \<times> jsstring list" where
  "code_loop lines i codeLines =
     (if i < length lines \<and> \<not> PATTERNS_codeBlockStart (trim (lines ! i))
      then code_loop lines (i + 1) (codeLines @ [lines ! i])
      else (i, codeLines))"
  by pat_completeness auto
termination
  by (relation "measure (\<lambda>(lines, i, codeLines). length lines - i)") auto

declare code_loop.simps [simp del]

definition parseCodeBlock :: "jsstring list \<Rightarrow> nat \<Rightarrow> (block option \<times> nat) option" where
  "parseCodeBlock lines startIndex =
     (case line_at lines startIndex of
        None \<Rightarrow> None
      | Some l \<Rightarrow>
          let language = trim (drop 3 (trim l));
              (i, codeLines) = code_loop lines (startIndex + 1) []
          in Some (Some (Codeblock language (join_lines codeLines)), i + 1))"

function quote_loop :: "jsstring list \<Rightarrow> nat \<Rightarrow> jsstring list \<Rightarrow> nat \<times> jsstring list" where
  "quote_loop lines i quoteLines =
     (if i < length lines
      then (let line = trim (lines ! i)
            in if startsWith line [0x3E]
               then quote_loop lines (i + 1) (quoteLines @ [trim (drop 1 line)])
               else if line = [] \<and> i + 1 < length lines
                       \<and> startsWith (trim (lines ! (i + 1))) [0x3E]
               then quote_loop lines (i + 1) (quoteLines @ [[]])
               else (i, quoteLines))
      else (i, quoteLines))"
  by pat_completeness auto
termination
  by (relation "measure (\<lambda>(lines, i, quoteLines). length lines - i)") auto

declare quote_loop.simps [simp del]

definition parseBlockquote :: "jsstring list \<Rightarrow> nat \<Rightarrow> (block option \<times> nat) option" where
  "parseBlockquote lines startIndex =
     (let (i, quoteLines) = quote_loop lines startIndex []
      in Some (Some (Blockquote (parseInline (join_lines quoteLines))), i))"

text \<open>\<^verbatim>\<open>peekNextNonEmpty(lines, index, ...patterns)\<close>\<close>

definition peekNextNonEmpty ::
  "jsstring list \<Rightarrow> nat \<Rightarrow> (jsstring \<Rightarrow> jsstring option) list \<Rightarrow> bool" where
  "peekNextNonEmpty lines index patterns =
     (if index + 1 \<ge> length lines then False
      else (let nextLine = trim (lines ! (index + 1))
            in list_ex (\<lambda>p. p nextLine \<noteq> None) patterns))"

definition mainPattern :: "bool \<Rightarrow> jsstring \<Rightarrow> jsstring option" where
  "mainPattern isOrdered = (if isOrdered then PATTERNS_ordered else PATTERNS_unordered)"

definition nestedPattern :: "bool \<Rightarrow> jsstring \<Rightarrow> jsstring option" where
  "nestedPattern isOrdered = (if isOrdered then PATTERNS_unordered else PATTERNS_ordered)"

text \<open>The inner \<^verbatim>\<open>while\<close> of \<^verbatim>\<open>parseList\<close>, which collects the nested items.\<close>

function nested_loop ::
  "jsstring list \<Rightarrow> bool \<Rightarrow> nat \<Rightarrow> listitem list \<Rightarrow> nat \<times> listitem list" where
  "nested_loop lines isOrdered i nestedItems =
     (if i < length lines
      then (let nextLine = trim (lines ! i);
                nestedMatch = nestedPattern isOrdered nextLine
            in if nestedMatch \<noteq> None
               then nested_loop lines isOrdered (i + 1)
                      (nestedItems @ [ListItem (parseInline (the nestedMatch)) None])
               else if nextLine = []
                       \<and> peekNextNonEmpty lines i
                            [nestedPattern isOrdered, mainPattern isOrdered]
               then nested_loop lines isOrdered (i + 1) nestedItems
               else (i, nestedItems))
      else (i, nestedItems))"
  by pat_completeness auto
termination
  by (relation "measure (\<lambda>(lines, isOrdered, i, nestedItems). length lines - i)") auto

declare nested_loop.simps [simp del]

lemma nested_loop_bounds:
  "i \<le> fst (nested_loop lines isOrdered i acc)
   \<and> (i \<le> length lines \<longrightarrow> fst (nested_loop lines isOrdered i acc) \<le> length lines)"
proof (induction lines isOrdered i acc rule: nested_loop.induct)
  case (1 lines isOrdered i nestedItems)
  note IH1 = "1.IH"(1)[OF _ refl refl] and IH2 = "1.IH"(2)[OF _ refl refl]
  show ?case
    using IH1 IH2
    by (subst (1 2) nested_loop.simps) (auto simp: Let_def)
qed

text \<open>The outer \<^verbatim>\<open>while\<close> of \<^verbatim>\<open>parseList\<close>.\<close>

function main_loop ::
  "jsstring list \<Rightarrow> bool \<Rightarrow> nat \<Rightarrow> listitem list \<Rightarrow> nat \<times> listitem list" where
  "main_loop lines isOrdered i items =
     (if i < length lines
      then (let line = trim (lines ! i);
                match = mainPattern isOrdered line
            in if match \<noteq> None
               then (let children = parseInline (the match);
                         (i', nestedItems) = nested_loop lines isOrdered (i + 1) [];
                         nestedList = (if length nestedItems > 0
                                       then Some (ListNode (\<not> isOrdered) nestedItems)
                                       else None)
                     in main_loop lines isOrdered i' (items @ [ListItem children nestedList]))
               else if line = [] \<and> peekNextNonEmpty lines i [mainPattern isOrdered]
               then main_loop lines isOrdered (i + 1) items
               else (i, items))
      else (i, items))"
  by pat_completeness auto
termination
  apply (relation "measure (\<lambda>(lines, isOrdered, i, items). length lines - i)")
    apply simp
  subgoal for lines isOrdered i items x xa xb xc y
    using nested_loop_bounds[of "i + 1" lines isOrdered "[]"]
    by (cases "nested_loop lines isOrdered (i + 1) []") auto
  subgoal by auto
  done

declare main_loop.simps [simp del]

definition parseList :: "jsstring list \<Rightarrow> nat \<Rightarrow> (block option \<times> nat) option" where
  "parseList lines startIndex =
     (case line_at lines startIndex of
        None \<Rightarrow> None
      | Some l \<Rightarrow>
          let firstLine = trim l;
              isOrdered = (PATTERNS_ordered firstLine \<noteq> None);
              (i, items) = main_loop lines isOrdered startIndex []
          in Some (Some (ListNode isOrdered items), i))"

definition parseLine :: "jsstring list \<Rightarrow> nat \<Rightarrow> (block option \<times> nat) option" where
  "parseLine lines index =
     (case line_at lines index of
        None \<Rightarrow> None
      | Some l \<Rightarrow>
          let line = trim l
          in if line = [] then Some (None, index + 1)
             else if PATTERNS_codeBlockStart line then parseCodeBlock lines index
             else (case PATTERNS_heading line of
                     Some (level, content) \<Rightarrow>
                       Some (Some (Heading level (parseInline content)), index + 1)
                   | None \<Rightarrow>
                       if PATTERNS_hr line then Some (Some Hr, index + 1)
                       else if startsWith line [0x3E] then parseBlockquote lines index
                       else if PATTERNS_ordered line \<noteq> None \<or> PATTERNS_unordered line \<noteq> None
                       then parseList lines index
                       else Some (Some (Paragraph (parseInline line)), index + 1)))"

lemma code_loop_bounds: "i \<le> fst (code_loop lines i acc)"
proof (induction lines i acc rule: code_loop.induct)
  case (1 lines i codeLines)
  then show ?case by (subst code_loop.simps) auto
qed

lemma quote_loop_bounds: "i \<le> fst (quote_loop lines i acc)"
proof (induction lines i acc rule: quote_loop.induct)
  case (1 lines i quoteLines)
  note IH1 = "1.IH"(1)[OF _ refl] and IH2 = "1.IH"(2)[OF _ refl]
  show ?case using IH1 IH2 by (subst quote_loop.simps) (auto simp: Let_def)
qed

lemma main_loop_bounds: "i \<le> fst (main_loop lines isOrdered i acc)"
proof (induction lines isOrdered i acc rule: main_loop.induct)
  case (1 lines isOrdered i items)
  obtain i' nestedItems where nl: "nested_loop lines isOrdered (i + 1) [] = (i', nestedItems)"
    by (cases "nested_loop lines isOrdered (i + 1) []")
  have i': "i + 1 \<le> i'" using nested_loop_bounds[of "i + 1" lines isOrdered "[]"] nl by simp
  note IH1 = "1.IH"(1)[OF _ refl refl _ refl nl[symmetric] refl refl] and IH2 = "1.IH"(2)[OF _ refl refl]
  show ?case using IH1 IH2 i' nl by (subst main_loop.simps) (auto simp: Let_def)
qed

lemma parseLine_progress:
  assumes "parseLine lines i = Some (node, nextIndex)"
  shows "i < nextIndex"
proof -
  from assms obtain l where l: "line_at lines i = Some l" 
    by (auto simp: parseLine_def split: option.splits)
  then have lt: "i < length lines" and ll: "l = lines ! i" by (auto simp: line_at_def split: if_splits)
  have cb: "parseCodeBlock lines i = Some (node, nextIndex) \<Longrightarrow> i < nextIndex"
    using code_loop_bounds[of "i + 1" lines "[]"] l
    by (auto simp: parseCodeBlock_def Let_def split: prod.splits)
  have bq: "startsWith (trim l) [0x3E] \<Longrightarrow> parseBlockquote lines i = Some (node, nextIndex) \<Longrightarrow> i < nextIndex"
    using quote_loop_bounds[of "i + 1" lines "[trim (drop 1 (trim l))]"] lt ll
    by (auto simp: parseBlockquote_def quote_loop.simps[of lines i] Let_def split: prod.splits)
  have pl: "PATTERNS_ordered (trim l) \<noteq> None \<or> PATTERNS_unordered (trim l) \<noteq> None \<Longrightarrow> parseList lines i = Some (node, nextIndex) \<Longrightarrow> i < nextIndex"
  proof -
    assume m: "PATTERNS_ordered (trim l) \<noteq> None \<or> PATTERNS_unordered (trim l) \<noteq> None"
      and p: "parseList lines i = Some (node, nextIndex)"
    define isOrdered where "isOrdered = (PATTERNS_ordered (trim l) \<noteq> None)"
    have mm: "mainPattern isOrdered (trim (lines ! i)) \<noteq> None"
      using m ll by (auto simp: mainPattern_def isOrdered_def)
    obtain i' nestedItems where nl: "nested_loop lines isOrdered (i + 1) [] = (i', nestedItems)"
      by (cases "nested_loop lines isOrdered (i + 1) []")
    have i': "i + 1 \<le> i'" using nested_loop_bounds[of "i + 1" lines isOrdered "[]"] nl by simp
    from p l have "nextIndex = fst (main_loop lines isOrdered i [])"
      by (auto simp: parseList_def Let_def isOrdered_def split: prod.splits)
    also have "\<dots> \<ge> i'"
      using lt mm nl main_loop_bounds[of i' lines isOrdered]
      by (subst main_loop.simps) (auto simp: Let_def)
    finally show "i < nextIndex" using i' by simp
  qed
  show ?thesis using assms l cb bq pl
    by (auto simp: parseLine_def Let_def split: if_splits option.splits)
qed

text \<open>The \<^verbatim>\<open>while (i < lines.length)\<close> loop of \<^verbatim>\<open>parseMarkdown\<close>; \<open>None\<close> when
  \<^verbatim>\<open>parseLine\<close> raises.\<close>

function parse_loop :: "jsstring list \<Rightarrow> nat \<Rightarrow> block list \<Rightarrow> block list option" where
  "parse_loop lines i nodes =
     (if i < length lines
      then (case parseLine lines i of
              None \<Rightarrow> None
            | Some (node, nextIndex) \<Rightarrow>
                parse_loop lines nextIndex
                  (case node of None \<Rightarrow> nodes | Some n \<Rightarrow> nodes @ [n]))
      else Some nodes)"
  by pat_completeness auto
termination
  apply (relation "measure (\<lambda>(lines, i, nodes). length lines - i)")
   apply simp
  subgoal for lines i nodes x2 node nextIndex
    using parseLine_progress[of lines i node nextIndex] by auto
  done

declare parse_loop.simps [simp del]

definition parseMarkdown :: "jsstring \<Rightarrow> block list option" where
  "parseMarkdown text = parse_loop (split_lines text) 0 []"


section \<open>Vocabulary of the properties\<close>

text \<open>No two consecutive nodes of a children sequence are both text nodes.\<close>

fun is_text :: "inline \<Rightarrow> bool" where
  "is_text (Text c) = True"
| "is_text token = False"

fun no_adjacent_text :: "inline list \<Rightarrow> bool" where
  "no_adjacent_text [] = True"
| "no_adjacent_text [x] = True"
| "no_adjacent_text (x # y # ys) = (\<not> (is_text x \<and> is_text y) \<and> no_adjacent_text (y # ys))"

text \<open>Every children sequence of a block, those of its list items and of their nested
  lists included.\<close>

fun block_children :: "block \<Rightarrow> inline list list"
  and item_children :: "listitem \<Rightarrow> inline list list" where
  "block_children (Heading level children) = [children]"
| "block_children (Paragraph children) = [children]"
| "block_children Hr = []"
| "block_children (Codeblock language content) = []"
| "block_children (Blockquote children) = [children]"
| "block_children (ListNode isOrdered items) = concat (map item_children items)"
| "item_children (ListItem children nestedList) =
     children # (case nestedList of None \<Rightarrow> [] | Some b \<Rightarrow> block_children b)"

text \<open>The item the outer loop of \<^verbatim>\<open>parseList\<close> pushes for a line whose capture is \<open>g\<close>,
  once the inner loop has collected \<open>nestedItems\<close>.\<close>

definition mk_item :: "bool \<Rightarrow> jsstring \<Rightarrow> listitem list \<Rightarrow> listitem" where
  "mk_item isOrdered g nestedItems =
     ListItem (parseInline g)
       (if nestedItems \<noteq> [] then Some (ListNode (\<not> isOrdered) nestedItems) else None)"

text \<open>
  The shape the list parser promises: a nested list has the opposite \<^verbatim>\<open>ordered\<close> flag and
  its items carry no nested list of their own.
\<close>

fun item_unnested :: "listitem \<Rightarrow> bool" where
  "item_unnested (ListItem children nestedList) = (nestedList = None)"

fun item_nesting_ok :: "bool \<Rightarrow> listitem \<Rightarrow> bool" where
  "item_nesting_ok isOrdered (ListItem children None) = True"
| "item_nesting_ok isOrdered (ListItem children (Some (ListNode ordered nestedItems))) =
     (ordered = (\<not> isOrdered) \<and> list_all item_unnested nestedItems)"
| "item_nesting_ok isOrdered (ListItem children (Some b)) = False"

fun nesting_ok :: "block \<Rightarrow> bool" where
  "nesting_ok (ListNode isOrdered items) = list_all (item_nesting_ok isOrdered) items"
| "nesting_ok b = True"

text \<open>
  What a node stands for in the source.  \<open>literal\<close> is the content or label of a node
  (the text of a link, the alt of an image).  \<open>delimiters\<close> gives the markup its rule strips:
  for a link and an image the closing markup holds the target, which the node keeps in
  \<^verbatim>\<open>href\<close> or \<^verbatim>\<open>src\<close>.  \<open>source_forms\<close> are the spans of source text the node can come
  from, and \<open>covers nodes s\<close> says that \<open>s\<close> is the concatenation, in order, of one
  source form per node.
\<close>

fun literal :: "inline \<Rightarrow> jsstring" where
  "literal (Text content) = content"
| "literal (Bold content) = content"
| "literal (Italic content) = content"
| "literal (Strike content) = content"
| "literal (Code content) = content"
| "literal (Link txt href) = txt"
| "literal (ImageNode alt src) = alt"

fun delimiters :: "inline \<Rightarrow> (jsstring \<times> jsstring) list" where
  "delimiters (Text content) = [([], [])]"
| "delimiters (Bold content) = [(str ''**'', str ''**''), (str ''__'', str ''__'')]"
| "delimiters (Italic content) = [(str ''*'', str ''*''), (str ''_'', str ''_'')]"
| "delimiters (Strike content) = [(str ''~~'', str ''~~'')]"
| "delimiters (Code content) = [(str ''`'', str ''`'')]"
| "delimiters (Link txt href) = [(str ''['', str '']('' @ href @ str '')'')]"
| "delimiters (ImageNode alt src) = [(str ''!['', str '']('' @ src @ str '')'')]"

definition source_forms :: "inline \<Rightarrow> jsstring list" where
  "source_forms node = map (\<lambda>(opn, cls). opn @ literal node @ cls) (delimiters node)"

fun covers :: "inline list \<Rightarrow> jsstring \<Rightarrow> bool" where
  "covers [] s = (s = [])"
| "covers (node # nodes) s =
     (\<exists>span\<in>set (source_forms node). startsWith s span \<and> covers nodes (drop (length span) s))"

text \<open>
  The markup of the inline rules, from their description.  A node is \<open>well_formed\<close> when
  its content obeys its rule: the content of a bold, italic, strike or code node is not
  empty and is free of the characters its rule excludes, the text of a link is not empty
  and holds no closing bracket, the alt of an image holds no closing bracket, and a target
  is not empty and holds no closing parenthesis.  \<open>markup_at s\<close> says that \<open>s\<close> starts with
  a source form of a well-formed node other than text.  \<open>parses_in nodes s after\<close>
  strengthens \<open>covers\<close>, \<open>after\<close> being the input that follows \<open>s\<close>: every node is
  well-formed, and no markup starts at any position of the span of a text node, so text is
  only what no rule recognises.
\<close>

fun well_formed :: "inline \<Rightarrow> bool" where
  "well_formed (Text content) = True"
| "well_formed (Bold content) =
     (content \<noteq> [] \<and> list_all (\<lambda>c. c \<noteq> 0x2A \<and> c \<noteq> 0x5F) content)"
| "well_formed (Italic content) =
     (content \<noteq> [] \<and> list_all (\<lambda>c. c \<noteq> 0x2A \<and> c \<noteq> 0x5F) content)"
| "well_formed (Strike content) = (content \<noteq> [] \<and> list_all (\<lambda>c. c \<noteq> 0x7E) content)"
| "well_formed (Code content) = (content \<noteq> [] \<and> list_all (\<lambda>c. c \<noteq> 0x60) content)"
| "well_formed (Link txt href) =
     (txt \<noteq> [] \<and> list_all (\<lambda>c. c \<noteq> 0x5D) txt \<and> href \<noteq> [] \<and> list_all (\<lambda>c. c \<noteq> 0x29) href)"
| "well_formed (ImageNode alt src) =
     (list_all (\<lambda>c. c \<noteq> 0x5D) alt \<and> src \<noteq> [] \<and> list_all (\<lambda>c. c \<noteq> 0x29) src)"

definition markup_at :: "jsstring \<Rightarrow> bool" where
  "markup_at s =
     (\<exists>node span. \<not> is_text node \<and> well_formed node
        \<and> span \<in> set (source_forms node) \<and> startsWith s span)"

fun parses_in :: "inline list \<Rightarrow> jsstring \<Rightarrow> jsstring \<Rightarrow> bool" where
  "parses_in [] s after = (s = [])"
| "parses_in (node # nodes) s after =
     (\<exists>span\<in>set (source_forms node).
        startsWith s span \<and> well_formed node
        \<and> (is_text node \<longrightarrow> (\<forall>k<length span. \<not> markup_at (drop k (s @ after))))
        \<and> parses_in nodes (drop (length span) s) after)"

definition parses :: "inline list \<Rightarrow> jsstring \<Rightarrow> bool" where
  "parses nodes s = parses_in nodes s []"

text \<open>
  Lines as the list parser sees them: blank (empty once trimmed), an item of a given
  marker pattern, a list-item line of either marker, and a line that is neither blank nor
  a list item.
\<close>

definition blank_at :: "jsstring list \<Rightarrow> nat \<Rightarrow> bool" where
  "blank_at lines j = (j < length lines \<and> trim (lines ! j) = [])"

definition item_at ::
  "(jsstring \<Rightarrow> jsstring option) \<Rightarrow> jsstring list \<Rightarrow> nat \<Rightarrow> jsstring \<Rightarrow> bool" where
  "item_at pattern lines j g = (j < length lines \<and> pattern (trim (lines ! j)) = Some g)"

definition list_item_at :: "jsstring list \<Rightarrow> nat \<Rightarrow> bool" where
  "list_item_at lines j =
     (j < length lines
      \<and> (PATTERNS_ordered (trim (lines ! j)) \<noteq> None
         \<or> PATTERNS_unordered (trim (lines ! j)) \<noteq> None))"

definition nonlist_at :: "jsstring list \<Rightarrow> nat \<Rightarrow> bool" where
  "nonlist_at lines j =
     (j < length lines \<and> trim (lines ! j) \<noteq> []
      \<and> PATTERNS_ordered (trim (lines ! j)) = None
      \<and> PATTERNS_unordered (trim (lines ! j)) = None)"

text \<open>
  Where the list parser may stop: at the end of the input, or at a line that is no list
  item and is not a blank line directly followed by a list item.  \<open>nested_stops\<close> is the
  same for the inner loop, which only knows that the nested pattern fails.
\<close>

definition stops_here :: "jsstring list \<Rightarrow> nat \<Rightarrow> bool" where
  "stops_here lines n =
     (n \<le> length lines
      \<and> (n < length lines
           \<longrightarrow> \<not> list_item_at lines n \<and> \<not> (blank_at lines n \<and> list_item_at lines (n + 1))))"

definition nested_stops :: "jsstring list \<Rightarrow> bool \<Rightarrow> nat \<Rightarrow> bool" where
  "nested_stops lines isOrdered n =
     (n \<le> length lines
      \<and> (n < length lines
           \<longrightarrow> nestedPattern isOrdered (trim (lines ! n)) = None
               \<and> \<not> (blank_at lines n \<and> list_item_at lines (n + 1))))"


section \<open>Properties of the inline tokenizer\<close>

lemma no_adjacent_text_snoc:
  "no_adjacent_text (xs @ [t]) =
     (no_adjacent_text xs \<and> (xs = [] \<or> \<not> (is_text (last xs) \<and> is_text t)))"
  by (induction xs rule: no_adjacent_text.induct) auto

lemma merge_step_no_adjacent:
  assumes "no_adjacent_text acc"
  shows "no_adjacent_text (merge_step acc token)"
proof (cases "acc = []")
  case True
  then show ?thesis by (cases token) auto
next
  case False
  then obtain ys y where acc: "acc = ys @ [y]" by (metis append_butlast_last_id)
  have two: "\<And>t. no_adjacent_text (ys @ [y, t]) =
      (no_adjacent_text (ys @ [y]) \<and> \<not> (is_text y \<and> is_text t))"
    using no_adjacent_text_snoc[of "ys @ [y]"] by simp
  show ?thesis
  proof (cases "is_text token \<and> is_text y")
    case True
    then obtain c c0 where "token = Text c" "y = Text c0"
      by (cases token; cases y) auto
    with assms acc show ?thesis by (simp add: no_adjacent_text_snoc)
  next
    case False
    then have "merge_step acc token = ys @ [y, token]"
      using acc by (cases token; cases y) auto
    with assms acc False show ?thesis by (auto simp: two)
  qed
qed

lemma foldl_merge_no_adjacent:
  "no_adjacent_text acc \<Longrightarrow> no_adjacent_text (foldl merge_step acc tokens)"
  by (induction tokens arbitrary: acc) (auto simp: merge_step_no_adjacent)

lemma parseInline_no_adjacent: "no_adjacent_text (parseInline s)"
  by (simp add: parseInline_def foldl_merge_no_adjacent)

lemma merge_step_nonempty: "merge_step acc token \<noteq> []"
  by (cases token) (auto split: inline.splits)

lemma foldl_merge_nonempty: "acc \<noteq> [] \<Longrightarrow> foldl merge_step acc tokens \<noteq> []"
  by (induction tokens arbitrary: acc) (auto simp: merge_step_nonempty)

lemma tokenize_nonempty: "remaining \<noteq> [] \<or> tokens \<noteq> [] \<Longrightarrow> tokenize remaining tokens \<noteq> []"
proof (induction remaining tokens rule: tokenize.induct)
  case (1 remaining tokens)
  show ?case
  proof (cases "remaining = []")
    case True
    with "1.prems" show ?thesis by (simp add: tokenize.simps[of "[]"])
  next
    case False
    obtain token rest where st: "inline_step remaining = (token, rest)" by (cases "inline_step remaining")
    from False have "0 < length remaining" by simp
    from "1.IH"[OF this st[symmetric]] have "tokenize rest (tokens @ [token]) \<noteq> []" by simp
    with False st show ?thesis by (simp add: tokenize.simps[of remaining])
  qed
qed

lemma parseInline_nonempty: "parseInline s \<noteq> []"
proof (cases "s = []")
  case True then show ?thesis by (simp add: parseInline_def)
next
  case False
  then have "tokenize s [] \<noteq> []" by (simp add: tokenize_nonempty)
  then obtain t ts where "tokenize s [] = t # ts" by (cases "tokenize s []") auto
  then show ?thesis using False
    by (simp add: parseInline_def foldl_merge_nonempty merge_step_nonempty)
qed

lemma inline_step_suffix:
  "\<exists>consumed. remaining = consumed @ snd (inline_step remaining) \<and> (remaining \<noteq> [] \<longrightarrow> consumed \<noteq> [])"
proof (cases "first_match rules remaining")
  case None
  define len where "len = (case search_special remaining of None \<Rightarrow> length remaining
                            | Some n \<Rightarrow> if n = 0 then 1 else n)"
  have "remaining \<noteq> [] \<Longrightarrow> take len remaining \<noteq> []"
    by (auto simp: len_def split: option.splits)
  moreover have "snd (inline_step remaining) = drop len remaining"
    using None by (simp add: inline_step_def Let_def len_def)
  ultimately show ?thesis
    by (intro exI[of _ "take len remaining"]) simp
next
  case (Some m)
  obtain tok m0 where m: "m = (tok, m0)" by (cases m)
  from first_match_rules_Some[OF Some[unfolded m]] obtain r where "m0 \<noteq> []" "remaining = m0 @ r" by blast
  then show ?thesis using Some m by (auto simp: inline_step_def)
qed

lemma iterate_to_empty:
  "\<exists>n\<le>length remaining. ((\<lambda>r. snd (inline_step r)) ^^ n) remaining = []"
proof (induction "length remaining" arbitrary: remaining rule: less_induct)
  case less
  show ?case
  proof (cases "remaining = []")
    case True
    then show ?thesis by (intro exI[of _ 0]) simp
  next
    case False
    let ?r = "snd (inline_step remaining)"
    from inline_step_shrinks[OF False] have lt: "length ?r < length remaining" .
    from less[OF lt] obtain n where n: "n \<le> length ?r" "((\<lambda>r. snd (inline_step r)) ^^ n) ?r = []" by blast
    have "((\<lambda>r. snd (inline_step r)) ^^ Suc n) remaining = []"
      using n(2) by (simp add: funpow_Suc_right del: funpow.simps)
    moreover have "Suc n \<le> length remaining" using n(1) lt by simp
    ultimately show ?thesis by blast
  qed
qed

lemma startsWith_iff: "startsWith s p \<longleftrightarrow> (\<exists>r. s = p @ r)"
  by (auto simp: startsWith_def) (metis append_take_drop_id)

lemma covers_Cons_iff:
  "covers (node # nodes) s \<longleftrightarrow>
     (\<exists>span r. span \<in> set (source_forms node) \<and> s = span @ r \<and> covers nodes r)"
  by (auto simp: startsWith_iff)

lemma covers_snoc_iff:
  "covers (nodes @ [node]) s \<longleftrightarrow>
     (\<exists>r span. s = r @ span \<and> covers nodes r \<and> span \<in> set (source_forms node))"
proof (induction nodes arbitrary: s)
  case Nil
  show ?case by (auto simp: startsWith_iff)
next
  case (Cons a nodes)
  show ?case
    unfolding append_Cons covers_Cons_iff Cons.IH
    by (metis append.assoc)
qed

lemma first_match_rules_source:
  assumes "first_match rules s = Some (tok, m0)"
  shows "m0 \<in> set (source_forms tok)"
proof -
  consider "rule_image s = Some (tok, m0)" | "rule_link s = Some (tok, m0)"
    | "rule_code s = Some (tok, m0)" | "rule_bold s = Some (tok, m0)"
    | "rule_italic s = Some (tok, m0)" | "rule_strike s = Some (tok, m0)"
    using assms by (auto simp: rules_def split: option.splits)
  then show ?thesis
  proof cases
    case 1
    from rule_image_Some[OF 1] show ?thesis by (auto simp: source_forms_def)
  next
    case 2
    from rule_link_Some[OF 2] show ?thesis by (auto simp: source_forms_def)
  next
    case 3
    then show ?thesis by (auto simp: rule_code_def source_forms_def str_def)
  next
    case 4
    then show ?thesis
      by (auto simp: rule_bold_def source_forms_def split: option.splits)
  next
    case 5
    then show ?thesis
      by (auto simp: rule_italic_def source_forms_def split: option.splits)
  next
    case 6
    then show ?thesis by (auto simp: rule_strike_def source_forms_def)
  qed
qed

lemma inline_step_source:
  assumes "inline_step remaining = (tok, rest)"
  shows "\<exists>span\<in>set (source_forms tok). remaining = span @ rest"
proof (cases "first_match rules remaining")
  case None
  with assms show ?thesis
    by (auto simp: inline_step_def Let_def source_forms_def)
next
  case (Some m)
  obtain tok' m0 where m: "m = (tok', m0)" by (cases m)
  with Some assms have t: "tok' = tok" "rest = drop (length m0) remaining"
    by (auto simp: inline_step_def)
  from first_match_rules_Some[OF Some[unfolded m]] obtain r where "remaining = m0 @ r" by blast
  with t have "remaining = m0 @ rest" by simp
  with first_match_rules_source[OF Some[unfolded m]] t show ?thesis by blast
qed

lemma tokenize_covers:
  "covers tokens pre \<Longrightarrow> covers (tokenize remaining tokens) (pre @ remaining)"
proof (induction remaining tokens arbitrary: pre rule: tokenize.induct)
  case (1 remaining tokens)
  show ?case
  proof (cases "remaining = []")
    case True
    with "1.prems" show ?thesis by (simp add: tokenize.simps[of "[]"])
  next
    case False
    obtain token rest where st: "inline_step remaining = (token, rest)"
      by (cases "inline_step remaining")
    from inline_step_source[OF st] obtain span where
      sp: "span \<in> set (source_forms token)" "remaining = span @ rest" by blast
    from "1.prems" sp(1) have "covers (tokens @ [token]) (pre @ span)"
      unfolding covers_snoc_iff by blast
    from "1.IH"[OF _ st[symmetric] this] False
    have "covers (tokenize rest (tokens @ [token])) ((pre @ span) @ rest)" by simp
    with False st sp(2) show ?thesis by (subst tokenize.simps) simp
  qed
qed

lemma merge_step_covers:
  assumes "covers acc s" and "span \<in> set (source_forms token)"
  shows "covers (merge_step acc token) (s @ span)"
proof (cases "\<exists>c c0 ys. token = Text c \<and> acc = ys @ [Text c0]")
  case True
  then obtain c c0 ys where t: "token = Text c" "acc = ys @ [Text c0]" by blast
  from assms(1) t(2) have "covers (ys @ [Text c0]) s" by simp
  then obtain r where r: "s = r @ c0" "covers ys r"
    unfolding covers_snoc_iff by (auto simp: source_forms_def)
  from assms(2) t(1) have "span = c" by (simp add: source_forms_def)
  moreover have "merge_step acc token = ys @ [Text (c0 @ c)]" using t by simp
  moreover have "covers (ys @ [Text (c0 @ c)]) (r @ (c0 @ c))"
    unfolding covers_snoc_iff using r(2) by (auto simp: source_forms_def)
  ultimately show ?thesis using r(1) by simp
next
  case False
  have "merge_step acc token = acc @ [token]"
  proof (cases token)
    case (Text c)
    show ?thesis
    proof (cases "acc = []")
      case True
      with Text show ?thesis by simp
    next
      case ne: False
      then have a: "acc = butlast acc @ [last acc]" by simp
      with False Text have "\<forall>c0. last acc \<noteq> Text c0" by metis
      with ne Text show ?thesis by (cases "last acc") auto
    qed
  qed simp_all
  moreover from assms have "covers (acc @ [token]) (s @ span)"
    unfolding covers_snoc_iff by blast
  ultimately show ?thesis by simp
qed

lemma foldl_merge_covers:
  "covers acc s \<Longrightarrow> covers tokens t \<Longrightarrow> covers (foldl merge_step acc tokens) (s @ t)"
proof (induction tokens arbitrary: acc s t)
  case Nil
  then show ?case by simp
next
  case (Cons token tokens)
  from Cons.prems(2) obtain span r where
    sp: "span \<in> set (source_forms token)" "t = span @ r" "covers tokens r"
    unfolding covers_Cons_iff by blast
  from Cons.IH[OF merge_step_covers[OF Cons.prems(1) sp(1)] sp(3)] sp(2)
  show ?case by simp
qed

lemma covers_subseq: "covers nodes s \<Longrightarrow> subseq (concat (map literal nodes)) s"
proof (induction nodes arbitrary: s)
  case Nil
  then show ?case by simp
next
  case (Cons node nodes)
  from Cons.prems obtain span r where
    sp: "span \<in> set (source_forms node)" "s = span @ r" "covers nodes r"
    unfolding covers_Cons_iff by blast
  from sp(1) obtain opn cls where "span = opn @ literal node @ cls"
    by (auto simp: source_forms_def)
  then have "subseq (literal node) span"
    by (metis list_emb_append2 list_emb_prefix subseq_order.order_refl)
  with Cons.IH[OF sp(3)] sp(2) show ?case
    by (simp add: list_emb_append_mono)
qed


lemma takeWhile_run:
  assumes "\<forall>x\<in>set c. P x" and "\<not> P y"
  shows "takeWhile P (c @ y # r) = c" and "dropWhile P (c @ y # r) = y # r"
  using assms by (simp_all add: takeWhile_append2 dropWhile_append2)

lemma expect_append: "expect p (p @ r) = Some r"
  by (simp add: expect_def startsWith_def)

lemma delimited_recognises:
  assumes "c \<noteq> []" and "\<forall>x\<in>set c. \<not> excluded x" and "cls = y # cls'" and "excluded y"
  shows "delimited opn excluded cls (opn @ c @ cls @ r) = Some c"
proof -
  have "takeWhile (\<lambda>x. \<not> excluded x) (c @ y # cls' @ r) = c"
    and "dropWhile (\<lambda>x. \<not> excluded x) (c @ y # cls' @ r) = y # cls' @ r"
    using assms(2,4) by (simp_all add: takeWhile_run)
  with assms(1,3) show ?thesis
    by (simp add: delimited_def expect_append startsWith_def)
qed

lemma delimited_None: "\<not> startsWith s opn \<Longrightarrow> delimited opn excluded cls s = None"
  by (simp add: delimited_def expect_def)

lemma rule_image_first_char: "s = [] \<or> hd s \<noteq> 0x21 \<Longrightarrow> rule_image s = None"
  by (cases s) (auto simp: rule_image_def expect_def startsWith_def str_def)

lemma rule_link_first_char: "s = [] \<or> hd s \<noteq> 0x5B \<Longrightarrow> rule_link s = None"
  by (cases s) (auto simp: rule_link_def expect_def startsWith_def str_def)

lemma rule_code_first_char: "s = [] \<or> hd s \<noteq> 0x60 \<Longrightarrow> rule_code s = None"
  by (cases s) (auto simp: rule_code_def delimited_def expect_def startsWith_def)

lemma rule_strike_first_char: "s = [] \<or> hd s \<noteq> 0x7E \<Longrightarrow> rule_strike s = None"
  by (cases s) (auto simp: rule_strike_def delimited_def expect_def startsWith_def str_def)

lemma rule_bold_first_char:
  "s = [] \<or> (hd s \<noteq> 0x2A \<and> hd s \<noteq> 0x5F) \<Longrightarrow> rule_bold s = None"
  by (cases s) (auto simp: rule_bold_def delimited_def expect_def startsWith_def str_def)

lemma rule_italic_first_char:
  "s = [] \<or> (hd s \<noteq> 0x2A \<and> hd s \<noteq> 0x5F) \<Longrightarrow> rule_italic s = None"
  by (cases s) (auto simp: rule_italic_def delimited_def expect_def startsWith_def str_def)

lemma first_match_not_special:
  assumes "s = [] \<or> \<not> isSpecial (hd s)"
  shows "first_match rules s = None"
proof -
  from assms have "s = [] \<or> (hd s \<noteq> 0x21 \<and> hd s \<noteq> 0x5B \<and> hd s \<noteq> 0x60 \<and> hd s \<noteq> 0x7E
                    \<and> hd s \<noteq> 0x2A \<and> hd s \<noteq> 0x5F)"
    by (auto simp: isSpecial_def)
  then show ?thesis
    by (auto simp: rules_def rule_image_first_char rule_link_first_char rule_code_first_char
          rule_strike_first_char rule_bold_first_char rule_italic_first_char)
qed


lemma str_simps:
  "str ''!['' = [0x21, 0x5B]" "str '']('' = [0x5D, 0x28]" "str '')'' = [0x29]"
  "str ''['' = [0x5B]" "str ''**'' = [0x2A, 0x2A]" "str ''__'' = [0x5F, 0x5F]"
  "str ''*'' = [0x2A]" "str ''_'' = [0x5F]" "str ''~~'' = [0x7E, 0x7E]" "str ''`'' = [0x60]"
  by (simp_all add: str_def)

lemma rule_image_recognises:
  assumes "well_formed (ImageNode alt src)"
  shows "rule_image (str ''!['' @ alt @ str '']('' @ src @ str '')'' @ r)
           = Some (ImageNode alt src, str ''!['' @ alt @ str '']('' @ src @ str '')'')"
proof -
  from assms have a: "\<forall>x\<in>set alt. x \<noteq> 0x5D" and s: "src \<noteq> []" "\<forall>x\<in>set src. x \<noteq> 0x29"
    by (simp_all add: list_all_iff)
  have 1: "takeWhile (\<lambda>c. c \<noteq> 0x5D) (alt @ 0x5D # 0x28 # src @ 0x29 # r) = alt"
    and 2: "dropWhile (\<lambda>c. c \<noteq> 0x5D) (alt @ 0x5D # 0x28 # src @ 0x29 # r) = 0x5D # 0x28 # src @ 0x29 # r"
    using a by (simp_all add: takeWhile_run)
  have 3: "takeWhile (\<lambda>c. c \<noteq> 0x29) (src @ 0x29 # r) = src"
    and 4: "dropWhile (\<lambda>c. c \<noteq> 0x29) (src @ 0x29 # r) = 0x29 # r"
    using s(2) by (simp_all add: takeWhile_run)
  have e1: "expect [0x21, 0x5B] (0x21 # 0x5B # alt @ 0x5D # 0x28 # src @ 0x29 # r)
              = Some (alt @ 0x5D # 0x28 # src @ 0x29 # r)"
    using expect_append[of "[0x21, 0x5B]"] by simp
  have e2: "expect [0x5D, 0x28] (0x5D # 0x28 # src @ 0x29 # r) = Some (src @ 0x29 # r)"
    using expect_append[of "[0x5D, 0x28]"] by simp
  show ?thesis
    using s(1) by (simp add: rule_image_def str_simps e1 e2 1 2 3 4 startsWith_def)
qed

lemma rule_link_recognises:
  assumes "well_formed (Link txt href)"
  shows "rule_link (str ''['' @ txt @ str '']('' @ href @ str '')'' @ r)
           = Some (Link txt href, str ''['' @ txt @ str '']('' @ href @ str '')'')"
proof -
  from assms have a: "txt \<noteq> []" "\<forall>x\<in>set txt. x \<noteq> 0x5D" and s: "href \<noteq> []" "\<forall>x\<in>set href. x \<noteq> 0x29"
    by (simp_all add: list_all_iff)
  have 1: "takeWhile (\<lambda>c. c \<noteq> 0x5D) (txt @ 0x5D # 0x28 # href @ 0x29 # r) = txt"
    and 2: "dropWhile (\<lambda>c. c \<noteq> 0x5D) (txt @ 0x5D # 0x28 # href @ 0x29 # r) = 0x5D # 0x28 # href @ 0x29 # r"
    using a(2) by (simp_all add: takeWhile_run)
  have 3: "takeWhile (\<lambda>c. c \<noteq> 0x29) (href @ 0x29 # r) = href"
    and 4: "dropWhile (\<lambda>c. c \<noteq> 0x29) (href @ 0x29 # r) = 0x29 # r"
    using s(2) by (simp_all add: takeWhile_run)
  have e1: "expect [0x5B] (0x5B # txt @ 0x5D # 0x28 # href @ 0x29 # r)
              = Some (txt @ 0x5D # 0x28 # href @ 0x29 # r)"
    using expect_append[of "[0x5B]"] by simp
  have e2: "expect [0x5D, 0x28] (0x5D # 0x28 # href @ 0x29 # r) = Some (href @ 0x29 # r)"
    using expect_append[of "[0x5D, 0x28]"] by simp
  show ?thesis
    using a(1) s(1) by (simp add: rule_link_def str_simps e1 e2 1 2 3 4 startsWith_def)
qed

lemma first_match_recognises:
  assumes "\<not> is_text node" and "well_formed node" and "span \<in> set (source_forms node)"
  shows "first_match rules (span @ r) = Some (node, span)"
proof (cases node)
  case (Text c)
  with assms(1) show ?thesis by simp
next
  case (ImageNode alt src)
  with assms(3) have sp: "span = str ''!['' @ alt @ str '']('' @ src @ str '')''"
    by (simp add: source_forms_def)
  from assms(2) have wf: "well_formed (ImageNode alt src)" unfolding ImageNode .
  show ?thesis
    using rule_image_recognises[OF wf, of r]
    unfolding sp ImageNode by (simp add: rules_def)
next
  case (Link label href)
  with assms(3) have sp: "span = str ''['' @ label @ str '']('' @ href @ str '')''"
    by (simp add: source_forms_def)
  have "rule_image (span @ r) = None"
    unfolding sp by (rule rule_image_first_char) (simp add: str_simps)
  moreover from assms(2) have wf: "well_formed (Link label href)" unfolding Link .
  ultimately show ?thesis
    using rule_link_recognises[OF wf, of r]
    unfolding sp Link by (simp add: rules_def)
next
  case (Code c)
  with assms(3) have sp: "span = [0x60] @ c @ [0x60]"
    by (simp add: source_forms_def str_simps)
  from assms(2) Code have c: "c \<noteq> []" "\<forall>x\<in>set c. \<not> (x = 0x60)" by (simp_all add: list_all_iff)
  have "rule_image (span @ r) = None" "rule_link (span @ r) = None"
    unfolding sp by (simp_all add: rule_image_first_char rule_link_first_char)
  moreover have "delimited [0x60] (\<lambda>c. c = 0x60) [0x60] ([0x60] @ c @ [0x60] @ r) = Some c"
    using c by (intro delimited_recognises) simp_all
  ultimately show ?thesis
    unfolding sp Code by (simp add: rules_def rule_code_def)
next
  case (Strike c)
  with assms(3) have sp: "span = str ''~~'' @ c @ str ''~~''"
    by (simp add: source_forms_def)
  from assms(2) Strike have c: "c \<noteq> []" "\<forall>x\<in>set c. \<not> (x = 0x7E)" by (simp_all add: list_all_iff)
  have "rule_image (span @ r) = None" "rule_link (span @ r) = None" "rule_code (span @ r) = None"
    "rule_bold (span @ r) = None" "rule_italic (span @ r) = None"
    unfolding sp
    by (simp_all add: rule_image_first_char rule_link_first_char rule_code_first_char
          rule_bold_first_char rule_italic_first_char str_simps)
  moreover have "delimited (str ''~~'') (\<lambda>c. c = 0x7E) (str ''~~'') (str ''~~'' @ c @ str ''~~'' @ r) = Some c"
    using c by (intro delimited_recognises[where y = "0x7E" and cls' = "[0x7E]"]) (simp_all add: str_simps)
  ultimately show ?thesis
    unfolding sp Strike by (simp add: rules_def rule_strike_def)
next
  case (Bold c)
  from assms(2) Bold have c: "c \<noteq> []" "\<forall>x\<in>set c. \<not> starOrUnderscore x"
    by (simp_all add: list_all_iff starOrUnderscore_def)
  from assms(3) Bold consider "span = str ''**'' @ c @ str ''**''" | "span = str ''__'' @ c @ str ''__''"
    by (auto simp: source_forms_def)
  then show ?thesis
  proof cases
    case 1
    have "rule_image (span @ r) = None" "rule_link (span @ r) = None" "rule_code (span @ r) = None"
      unfolding 1
      by (simp_all add: rule_image_first_char rule_link_first_char rule_code_first_char str_simps)
    moreover have "delimited (str ''**'') starOrUnderscore (str ''**'') (str ''**'' @ c @ str ''**'' @ r) = Some c"
      using c by (intro delimited_recognises[where y = "0x2A" and cls' = "[0x2A]"])
        (simp_all add: str_simps starOrUnderscore_def)
    ultimately show ?thesis
      unfolding 1 Bold by (simp add: rules_def rule_bold_def)
  next
    case 2
    have "rule_image (span @ r) = None" "rule_link (span @ r) = None" "rule_code (span @ r) = None"
      unfolding 2
      by (simp_all add: rule_image_first_char rule_link_first_char rule_code_first_char str_simps)
    moreover have "delimited (str ''**'') starOrUnderscore (str ''**'') (str ''__'' @ c @ str ''__'' @ r) = None"
      by (rule delimited_None) (simp add: startsWith_def str_simps)
    moreover have "delimited (str ''__'') starOrUnderscore (str ''__'') (str ''__'' @ c @ str ''__'' @ r) = Some c"
      using c by (intro delimited_recognises[where y = "0x5F" and cls' = "[0x5F]"])
        (simp_all add: str_simps starOrUnderscore_def)
    ultimately show ?thesis
      unfolding 2 Bold by (simp add: rules_def rule_bold_def)
  qed
next
  case (Italic c)
  from assms(2) Italic have c: "c \<noteq> []" "\<forall>x\<in>set c. \<not> starOrUnderscore x"
    by (simp_all add: list_all_iff starOrUnderscore_def)
  then obtain x c' where xc: "c = x # c'" "x \<noteq> 0x2A" "x \<noteq> 0x5F"
    by (cases c) (auto simp: starOrUnderscore_def)
  from assms(3) Italic consider "span = str ''*'' @ c @ str ''*''" | "span = str ''_'' @ c @ str ''_''"
    by (auto simp: source_forms_def)
  then show ?thesis
  proof cases
    case 1
    have "rule_image (span @ r) = None" "rule_link (span @ r) = None" "rule_code (span @ r) = None"
      unfolding 1
      by (simp_all add: rule_image_first_char rule_link_first_char rule_code_first_char str_simps)
    moreover have "rule_bold (span @ r) = None"
      unfolding 1 using xc
      by (simp add: rule_bold_def delimited_def expect_def startsWith_def str_simps)
    moreover have "delimited (str ''*'') starOrUnderscore (str ''*'') (str ''*'' @ c @ str ''*'' @ r) = Some c"
      using c by (intro delimited_recognises[where y = "0x2A" and cls' = "[]"])
        (simp_all add: str_simps starOrUnderscore_def)
    ultimately show ?thesis
      unfolding 1 Italic by (simp add: rules_def rule_italic_def)
  next
    case 2
    have "rule_image (span @ r) = None" "rule_link (span @ r) = None" "rule_code (span @ r) = None"
      unfolding 2
      by (simp_all add: rule_image_first_char rule_link_first_char rule_code_first_char str_simps)
    moreover have "rule_bold (span @ r) = None"
      unfolding 2 using xc
      by (simp add: rule_bold_def delimited_def expect_def startsWith_def str_simps)
    moreover have "delimited (str ''*'') starOrUnderscore (str ''*'') (str ''_'' @ c @ str ''_'' @ r) = None"
      by (rule delimited_None) (simp add: startsWith_def str_simps)
    moreover have "delimited (str ''_'') starOrUnderscore (str ''_'') (str ''_'' @ c @ str ''_'' @ r) = Some c"
      using c by (intro delimited_recognises[where y = "0x5F" and cls' = "[]"])
        (simp_all add: str_simps starOrUnderscore_def)
    ultimately show ?thesis
      unfolding 2 Italic by (simp add: rules_def rule_italic_def)
  qed
qed


lemma markup_at_matches: "markup_at s \<Longrightarrow> first_match rules s \<noteq> None"
proof -
  assume "markup_at s"
  then obtain node span where n: "\<not> is_text node" "well_formed node"
    "span \<in> set (source_forms node)" and "startsWith s span"
    by (auto simp: markup_at_def)
  then obtain r where "s = span @ r" by (auto simp: startsWith_iff)
  with first_match_recognises[OF n, of r] show ?thesis by simp
qed

lemma markup_at_special:
  assumes "markup_at s"
  shows "s \<noteq> [] \<and> isSpecial (hd s)"
proof (rule ccontr)
  assume "\<not> (s \<noteq> [] \<and> isSpecial (hd s))"
  then have "s = [] \<or> \<not> isSpecial (hd s)" by simp
  from first_match_not_special[OF this] markup_at_matches[OF assms] show False by simp
qed

lemma delimited_content:
  "delimited opn excluded cls s = Some c \<Longrightarrow> \<forall>x\<in>set c. \<not> excluded x"
  by (auto simp: delimited_def Let_def split: option.splits if_splits dest: set_takeWhileD)

lemma first_match_rules_well_formed:
  assumes "first_match rules s = Some (tok, m0)"
  shows "\<not> is_text tok \<and> well_formed tok"
proof -
  consider "rule_image s = Some (tok, m0)" | "rule_link s = Some (tok, m0)"
    | "rule_code s = Some (tok, m0)" | "rule_bold s = Some (tok, m0)"
    | "rule_italic s = Some (tok, m0)" | "rule_strike s = Some (tok, m0)"
    using assms by (auto simp: rules_def split: option.splits)
  then show ?thesis
  proof cases
    case 1
    then show ?thesis
      by (auto simp: rule_image_def Let_def list_all_iff split: option.splits if_splits
               dest: set_takeWhileD)
  next
    case 2
    then show ?thesis
      by (auto simp: rule_link_def Let_def list_all_iff split: option.splits if_splits
               dest: set_takeWhileD)
  next
    case 3
    then show ?thesis
      using delimited_Some delimited_content
      by (fastforce simp: rule_code_def list_all_iff)
  next
    case 4
    then show ?thesis
      using delimited_Some delimited_content
      by (fastforce simp: rule_bold_def list_all_iff starOrUnderscore_def split: option.splits)
  next
    case 5
    then show ?thesis
      using delimited_Some delimited_content
      by (fastforce simp: rule_italic_def list_all_iff starOrUnderscore_def split: option.splits)
  next
    case 6
    then show ?thesis
      using delimited_Some delimited_content
      by (fastforce simp: rule_strike_def list_all_iff)
  qed
qed

lemma search_special_Some: "search_special s = Some n \<Longrightarrow> \<forall>k<n. \<not> isSpecial (s ! k)"
proof (induction s arbitrary: n)
  case Nil
  then show ?case by simp
next
  case (Cons c cs)
  show ?case
  proof (cases "isSpecial c")
    case True
    with Cons.prems show ?thesis by simp
  next
    case False
    with Cons.prems obtain m where m: "search_special cs = Some m" "n = Suc m" by auto
    from Cons.IH[OF m(1)] False m(2) show ?thesis by (auto simp: nth_Cons split: nat.splits)
  qed
qed

lemma search_special_None: "search_special s = None \<Longrightarrow> \<forall>k<length s. \<not> isSpecial (s ! k)"
proof (induction s)
  case Nil
  then show ?case by simp
next
  case (Cons c cs)
  then show ?case by (auto simp: nth_Cons split: if_splits nat.splits)
qed

lemma inline_step_parse:
  assumes "inline_step remaining = (tok, rest)"
  shows "\<exists>span\<in>set (source_forms tok). remaining = span @ rest \<and> well_formed tok
           \<and> (is_text tok \<longrightarrow> (\<forall>k<length span. \<not> markup_at (drop k remaining)))"
proof (cases "first_match rules remaining")
  case (Some m)
  obtain tok' m0 where m: "m = (tok', m0)" by (cases m)
  with Some assms have t: "tok' = tok" by (auto simp: inline_step_def)
  from first_match_rules_well_formed[OF Some[unfolded m]] t
  have "\<not> is_text tok" "well_formed tok" by simp_all
  with inline_step_source[OF assms] show ?thesis by blast
next
  case None
  define len where "len = (case search_special remaining of None \<Rightarrow> length remaining
                            | Some n \<Rightarrow> if n = 0 then 1 else n)"
  from None assms have tok: "tok = Text (take len remaining)" and rest: "rest = drop len remaining"
    by (auto simp: inline_step_def Let_def len_def)
  have nm: "\<not> markup_at (drop k remaining)" if k: "k < length (take len remaining)" for k
  proof (cases "k = 0")
    case True
    with None markup_at_matches[of remaining] show ?thesis by auto
  next
    case False
    from k have kl: "k < len" "k < length remaining" by simp_all
    have "\<not> isSpecial (remaining ! k)"
    proof (cases "search_special remaining")
      case None
      from search_special_None[OF None] kl show ?thesis by simp
    next
      case (Some n)
      with kl(1) False have "k < n" by (auto simp: len_def split: if_splits)
      with search_special_Some[OF Some] show ?thesis by simp
    qed
    moreover have "hd (drop k remaining) = remaining ! k" using kl(2) by (simp add: hd_drop_conv_nth)
    ultimately show ?thesis using markup_at_special[of "drop k remaining"] by auto
  qed
  show ?thesis
    using tok rest nm by (intro bexI[of _ "take len remaining"]) (simp_all add: source_forms_def)
qed


lemma parses_in_Cons_iff:
  "parses_in (node # nodes) s after \<longleftrightarrow>
     (\<exists>span r. span \<in> set (source_forms node) \<and> s = span @ r \<and> well_formed node
        \<and> (is_text node \<longrightarrow> (\<forall>k<length span. \<not> markup_at (drop k (span @ r @ after))))
        \<and> parses_in nodes r after)"
  by (auto simp: startsWith_iff)

lemma parses_in_single_iff:
  "parses_in [node] s after \<longleftrightarrow>
     (s \<in> set (source_forms node) \<and> well_formed node
        \<and> (is_text node \<longrightarrow> (\<forall>k<length s. \<not> markup_at (drop k (s @ after)))))"
  unfolding parses_in_Cons_iff by auto

lemma parses_in_snoc_iff:
  "parses_in (nodes @ [node]) s after \<longleftrightarrow>
     (\<exists>r span. s = r @ span \<and> parses_in nodes r (span @ after)
        \<and> span \<in> set (source_forms node) \<and> well_formed node
        \<and> (is_text node \<longrightarrow> (\<forall>k<length span. \<not> markup_at (drop k (span @ after)))))"
proof (induction nodes arbitrary: s)
  case Nil
  show ?case unfolding append_Nil parses_in_single_iff by auto
next
  case (Cons a nodes)
  show ?case (is "?L \<longleftrightarrow> ?R")
  proof
    assume ?L
    then obtain spa r' where a: "spa \<in> set (source_forms a)" "s = spa @ r'" "well_formed a"
      "is_text a \<longrightarrow> (\<forall>k<length spa. \<not> markup_at (drop k (spa @ r' @ after)))"
      and rest: "parses_in (nodes @ [node]) r' after"
      unfolding append_Cons parses_in_Cons_iff by blast
    from rest obtain r span where r: "r' = r @ span" "parses_in nodes r (span @ after)"
      "span \<in> set (source_forms node)" "well_formed node"
      "is_text node \<longrightarrow> (\<forall>k<length span. \<not> markup_at (drop k (span @ after)))"
      unfolding Cons.IH by blast
    have "parses_in (a # nodes) (spa @ r) (span @ after)"
      unfolding parses_in_Cons_iff using a r(1,2) by auto
    with a(2) r show ?R by (intro exI[of _ "spa @ r"] exI[of _ span]) simp
  next
    assume ?R
    then obtain R span where R: "s = R @ span" "parses_in (a # nodes) R (span @ after)"
      "span \<in> set (source_forms node)" "well_formed node"
      "is_text node \<longrightarrow> (\<forall>k<length span. \<not> markup_at (drop k (span @ after)))"
      by blast
    from R(2) obtain spa r where a: "spa \<in> set (source_forms a)" "R = spa @ r" "well_formed a"
      "is_text a \<longrightarrow> (\<forall>k<length spa. \<not> markup_at (drop k (spa @ r @ span @ after)))"
      "parses_in nodes r (span @ after)"
      unfolding parses_in_Cons_iff by blast
    have "parses_in (nodes @ [node]) (r @ span) after"
      unfolding Cons.IH using a(5) R(3,4,5) by blast
    with a R(1) show ?L
      unfolding append_Cons parses_in_Cons_iff
      by (intro exI[of _ spa] exI[of _ "r @ span"]) simp
  qed
qed

lemma tokenize_parses:
  "parses_in tokens pre remaining \<Longrightarrow>
   parses_in (tokenize remaining tokens) (pre @ remaining) []"
proof (induction remaining tokens arbitrary: pre rule: tokenize.induct)
  case (1 remaining tokens)
  show ?case
  proof (cases "remaining = []")
    case True
    with "1.prems" show ?thesis by (simp add: tokenize.simps[of "[]"])
  next
    case False
    obtain token rest where st: "inline_step remaining = (token, rest)"
      by (cases "inline_step remaining")
    from inline_step_parse[OF st] obtain span where
      sp: "span \<in> set (source_forms token)" "remaining = span @ rest" "well_formed token"
        "is_text token \<longrightarrow> (\<forall>k<length span. \<not> markup_at (drop k remaining))"
      by blast
    from "1.prems" sp have "parses_in (tokens @ [token]) (pre @ span) rest"
      unfolding parses_in_snoc_iff by blast
    from "1.IH"[OF _ st[symmetric] this] False
    have "parses_in (tokenize rest (tokens @ [token])) ((pre @ span) @ rest) []" by simp
    with False st sp(2) show ?thesis by (subst tokenize.simps) simp
  qed
qed

lemma merge_step_parses:
  assumes "parses_in acc s (span @ after)"
    and "span \<in> set (source_forms token)" and "well_formed token"
    and "is_text token \<longrightarrow> (\<forall>k<length span. \<not> markup_at (drop k (span @ after)))"
  shows "parses_in (merge_step acc token) (s @ span) after"
proof (cases "\<exists>c c0 ys. token = Text c \<and> acc = ys @ [Text c0]")
  case True
  then obtain c c0 ys where t: "token = Text c" "acc = ys @ [Text c0]" by blast
  from assms(2) t(1) have sp: "span = c" by (simp add: source_forms_def)
  from assms(1) t(2) have "parses_in (ys @ [Text c0]) s (c @ after)" using sp by simp
  then obtain r where r: "s = r @ c0" "parses_in ys r (c0 @ c @ after)"
    and c0: "\<forall>k<length c0. \<not> markup_at (drop k (c0 @ c @ after))"
    unfolding parses_in_snoc_iff by (auto simp: source_forms_def)
  from assms(4) t(1) sp have c: "\<forall>k<length c. \<not> markup_at (drop k (c @ after))" by simp
  have both: "\<forall>k<length (c0 @ c). \<not> markup_at (drop k ((c0 @ c) @ after))"
  proof (intro allI impI)
    fix k assume k: "k < length (c0 @ c)"
    show "\<not> markup_at (drop k ((c0 @ c) @ after))"
    proof (cases "k < length c0")
      case True
      with c0 show ?thesis by simp
    next
      case False
      then have "drop k ((c0 @ c) @ after) = drop (k - length c0) (c @ after)" by simp
      moreover from False k have "k - length c0 < length c" by simp
      ultimately show ?thesis using c by simp
    qed
  qed
  have "parses_in (ys @ [Text (c0 @ c)]) (r @ (c0 @ c)) after"
    unfolding parses_in_snoc_iff using r(2) both
    by (intro exI[of _ r] exI[of _ "c0 @ c"]) (simp add: source_forms_def)
  moreover have "merge_step acc token = ys @ [Text (c0 @ c)]" using t by simp
  ultimately show ?thesis using r(1) sp by simp
next
  case False
  have "merge_step acc token = acc @ [token]"
  proof (cases token)
    case (Text c)
    show ?thesis
    proof (cases "acc = []")
      case True
      with Text show ?thesis by simp
    next
      case ne: False
      then have a: "acc = butlast acc @ [last acc]" by simp
      with False Text have "\<forall>c0. last acc \<noteq> Text c0" by metis
      with ne Text show ?thesis by (cases "last acc") auto
    qed
  qed simp_all
  moreover from assms have "parses_in (acc @ [token]) (s @ span) after"
    unfolding parses_in_snoc_iff by blast
  ultimately show ?thesis by simp
qed

lemma foldl_merge_parses:
  "parses_in acc s (t @ after) \<Longrightarrow> parses_in tokens t after \<Longrightarrow>
   parses_in (foldl merge_step acc tokens) (s @ t) after"
proof (induction tokens arbitrary: acc s t)
  case Nil
  then show ?case by simp
next
  case (Cons token tokens)
  from Cons.prems(2) obtain span r where
    sp: "span \<in> set (source_forms token)" "t = span @ r" "well_formed token"
      "is_text token \<longrightarrow> (\<forall>k<length span. \<not> markup_at (drop k (span @ r @ after)))"
      "parses_in tokens r after"
    unfolding parses_in_Cons_iff by blast
  from Cons.prems(1) sp(2) have "parses_in acc s (span @ (r @ after))" by simp
  from merge_step_parses[OF this sp(1,3,4)]
  have "parses_in (merge_step acc token) (s @ span) (r @ after)" .
  from Cons.IH[OF this sp(5)] sp(2) show ?case by simp
qed

lemma parseInline_parses: "parses (parseInline S) S"
proof (cases "S = []")
  case True
  then show ?thesis
    by (simp add: parseInline_def parses_def source_forms_def startsWith_def)
next
  case False
  have "parses_in (tokenize S []) ([] @ S) []" by (rule tokenize_parses) simp
  then have "parses_in (foldl merge_step [] (tokenize S [])) ([] @ S) []"
    by (intro foldl_merge_parses) simp_all
  with False show ?thesis by (simp add: parseInline_def parses_def)
qed

lemma markup_recognised:
  assumes "\<not> is_text node" and "well_formed node" and "span \<in> set (source_forms node)"
  shows "inline_step (span @ r) = (node, r)" and "parseInline span = [node]"
proof -
  from first_match_recognises[OF assms, of r]
  show st: "inline_step (span @ r) = (node, r)" by (simp add: inline_step_def)
  from first_match_recognises[OF assms, of "[]"] have fm: "first_match rules span = Some (node, span)"
    by simp
  from first_match_rules_Some[OF fm] have ne: "span \<noteq> []" by simp
  from fm have "inline_step span = (node, [])" by (simp add: inline_step_def)
  with ne have "tokenize span [] = tokenize [] [node]" by (subst tokenize.simps) simp
  also have "\<dots> = [node]" by (subst tokenize.simps) simp
  finally have "tokenize span [] = [node]" .
  moreover from assms(1) have "merge_step [] node = [node]" by (cases node) simp_all
  ultimately show "parseInline span = [node]" using ne by (simp add: parseInline_def)
qed

text \<open>The strict parse is unique: two strict parses of the same string, neither with two
  adjacent text nodes nor with an empty text node, are equal.\<close>

lemma source_form_nonempty:
  assumes "span \<in> set (source_forms node)" and "node \<noteq> Text []"
  shows "span \<noteq> []"
  using assms by (cases node) (auto simp: source_forms_def str_def)

lemma parses_in_Nil_string:
  assumes "parses_in nodes [] after" and "Text [] \<notin> set nodes"
  shows "nodes = []"
proof (cases nodes)
  case Nil
  then show ?thesis .
next
  case (Cons n ns)
  from assms(1)[unfolded Cons parses_in_Cons_iff]
  obtain span r where "span \<in> set (source_forms n)" "[] = span @ r"
    by blast
  moreover from assms(2) Cons have "n \<noteq> Text []" by auto
  ultimately show ?thesis using source_form_nonempty by fastforce
qed

lemma nontext_head_markup:
  assumes "parses_in (n # ns) s after" and "\<not> is_text n"
  shows "markup_at (s @ after)"
proof -
  from assms(1) obtain span r where "span \<in> set (source_forms n)" "s = span @ r" "well_formed n"
    unfolding parses_in_Cons_iff by blast
  with assms(2) show ?thesis by (auto simp: markup_at_def startsWith_iff)
qed

lemma parses_in_unique:
  assumes "parses_in ns s after" and "parses_in ns' s after"
    and "no_adjacent_text ns" and "no_adjacent_text ns'"
    and "Text [] \<notin> set ns" and "Text [] \<notin> set ns'"
  shows "ns = ns'"
  using assms
proof (induction "length s" arbitrary: s ns ns' rule: less_induct)
  case less
  show ?case
  proof (cases "s = []")
    case True
    with less.prems parses_in_Nil_string show ?thesis by metis
  next
    case False
    from False less.prems(1) obtain n ms where ns: "ns = n # ms" by (cases ns) auto
    from False less.prems(2) obtain n' ms' where ns': "ns' = n' # ms'" by (cases ns') auto
    from less.prems(1)[unfolded ns parses_in_Cons_iff] obtain sp r where
      n: "sp \<in> set (source_forms n)" "s = sp @ r" "well_formed n"
         "is_text n \<longrightarrow> (\<forall>k<length sp. \<not> markup_at (drop k (sp @ r @ after)))"
         "parses_in ms r after"
      by blast
    from less.prems(2)[unfolded ns' parses_in_Cons_iff] obtain sp' r' where
      n': "sp' \<in> set (source_forms n')" "s = sp' @ r'" "well_formed n'"
          "is_text n' \<longrightarrow> (\<forall>k<length sp'. \<not> markup_at (drop k (sp' @ r' @ after)))"
          "parses_in ms' r' after"
      by blast
    from less.prems(5) ns have "n \<noteq> Text []" by auto
    from source_form_nonempty[OF n(1) this] have spne: "sp \<noteq> []" .
    from less.prems(6) ns' have "n' \<noteq> Text []" by auto
    from source_form_nonempty[OF n'(1) this] have spne': "sp' \<noteq> []" .
    have tails: "no_adjacent_text ms" "no_adjacent_text ms'" "Text [] \<notin> set ms" "Text [] \<notin> set ms'"
      using less.prems(3,4,5,6) ns ns' by (cases ms; cases ms'; auto)+
    have text_blocks: "\<not> markup_at (s @ after)" if "is_text n" 
      using that n(2,4) spne by (auto dest: spec[of _ 0])
    have text_blocks': "\<not> markup_at (s @ after)" if "is_text n'" 
      using that n'(2,4) spne' by (auto dest: spec[of _ 0])
    have heads: "n = n' \<and> sp = sp'"
    proof (cases "markup_at (s @ after)")
      case True
      with text_blocks text_blocks' have nt: "\<not> is_text n" "\<not> is_text n'" by auto
      from first_match_recognises[OF nt(1) n(3,1), of "r @ after"]
           first_match_recognises[OF nt(2) n'(3,1), of "r' @ after"] n(2) n'(2)
      show ?thesis by (metis append.assoc option.inject prod.inject)
    next
      case False
      with nontext_head_markup less.prems(1,2) ns ns' have t: "is_text n" "is_text n'" by blast+
      then obtain c c' where c: "n = Text c" "n' = Text c'" by (cases n; cases n') auto
      with n(1) n'(1) have sp: "sp = c" "sp' = c'" by (simp_all add: source_forms_def)
      have no_shorter: "\<not> length a < length b"
        if a: "s = a @ ra" "parses_in ma ra after" "no_adjacent_text (Text a # ma)"
              "Text [] \<notin> set ma"
          and b: "s = b @ rb" "\<forall>k<length b. \<not> markup_at (drop k (b @ rb @ after))"
        for a b ra rb ma
      proof
        assume lt: "length a < length b"
        from a(1) b(1) have eq: "a @ ra = b @ rb" by simp
        then have "length a + length ra = length b + length rb"
          by (metis length_append)
        with lt have "ra \<noteq> []" by auto
        with a(2) obtain m mm where m: "ma = m # mm" by (cases ma) auto
        with a(3) have "\<not> is_text m" by simp
        from nontext_head_markup[OF a(2)[unfolded m] this] have "markup_at (ra @ after)" .
        moreover have "ra @ after = drop (length a) (b @ rb @ after)"
        proof -
          have "drop (length a) ((a @ ra) @ after) = ra @ after" by simp
          then show ?thesis unfolding eq by simp
        qed
        ultimately show False using b(2) lt by auto
      qed
      have "\<not> length c < length c'"
        using no_shorter[of c r ms c' r'] n(2,5) n'(2,4) less.prems(3) ns c sp tails(3) t by simp
      moreover have "\<not> length c' < length c"
        using no_shorter[of c' r' ms' c r] n'(2,5) n(2,4) less.prems(4) ns' c sp tails(4) t by simp
      ultimately have "length c = length c'" by simp
      with n(2) n'(2) sp have "c = c'" by (metis append_eq_append_conv)
      with c sp show ?thesis by simp
    qed
    with n(2) n'(2) have rr: "r = r'" by simp
    have "length r < length s" using n(2) spne by simp
    from less.hyps[OF this n(5) n'(5)[folded rr] tails] heads ns ns' show ?thesis by simp
  qed
qed


lemma inline_step_nonempty_token:
  assumes "remaining \<noteq> []"
  shows "fst (inline_step remaining) \<noteq> Text []"
proof (cases "first_match rules remaining")
  case None
  with assms show ?thesis
    by (auto simp: inline_step_def Let_def split: option.splits)
next
  case (Some m)
  obtain tok m0 where m: "m = (tok, m0)" by (cases m)
  from first_match_rules_well_formed[OF Some[unfolded m]] have "\<not> is_text tok" by simp
  with Some m show ?thesis by (auto simp: inline_step_def)
qed

lemma tokenize_no_empty_text:
  "Text [] \<notin> set tokens \<Longrightarrow> Text [] \<notin> set (tokenize remaining tokens)"
proof (induction remaining tokens rule: tokenize.induct)
  case (1 remaining tokens)
  show ?case
  proof (cases "remaining = []")
    case True
    with "1.prems" show ?thesis by (simp add: tokenize.simps[of "[]"])
  next
    case False
    obtain token rest where st: "inline_step remaining = (token, rest)"
      by (cases "inline_step remaining")
    from inline_step_nonempty_token[OF False] st have "token \<noteq> Text []" by simp
    with "1.prems" have "Text [] \<notin> set (tokens @ [token])" by auto
    from "1.IH"[OF _ st[symmetric] this] False
    have "Text [] \<notin> set (tokenize rest (tokens @ [token]))" by simp
    with False st show ?thesis by (subst tokenize.simps) simp
  qed
qed

lemma merge_step_no_empty_text:
  assumes "Text [] \<notin> set acc" and "token \<noteq> Text []"
  shows "Text [] \<notin> set (merge_step acc token)"
proof (cases "\<exists>c c0 ys. token = Text c \<and> acc = ys @ [Text c0]")
  case True
  then obtain c c0 ys where t: "token = Text c" "acc = ys @ [Text c0]" by blast
  with assms have "c \<noteq> []" "Text [] \<notin> set ys" by auto
  with t show ?thesis by simp
next
  case False
  have "merge_step acc token = acc @ [token]"
  proof (cases token)
    case (Text c)
    show ?thesis
    proof (cases "acc = []")
      case True
      with Text show ?thesis by simp
    next
      case ne: False
      then have a: "acc = butlast acc @ [last acc]" by simp
      with False Text have "\<forall>c0. last acc \<noteq> Text c0" by metis
      with ne Text show ?thesis by (cases "last acc") auto
    qed
  qed simp_all
  with assms show ?thesis by auto
qed

lemma foldl_merge_no_empty_text:
  "Text [] \<notin> set acc \<Longrightarrow> Text [] \<notin> set tokens \<Longrightarrow>
   Text [] \<notin> set (foldl merge_step acc tokens)"
proof (induction tokens arbitrary: acc)
  case Nil
  then show ?case by simp
next
  case (Cons token tokens)
  from Cons.prems have "Text [] \<notin> set (merge_step acc token)"
    by (intro merge_step_no_empty_text) auto
  with Cons.IH[of "merge_step acc token"] Cons.prems(2) show ?case by simp
qed

lemma parseInline_no_empty_text: "S \<noteq> [] \<Longrightarrow> Text [] \<notin> set (parseInline S)"
  using foldl_merge_no_empty_text[of "[]" "tokenize S []"] tokenize_no_empty_text[of "[]" S]
  by (simp add: parseInline_def)

lemma parseInline_only_parse:
  assumes "S \<noteq> []" and "parses nodes S" and "no_adjacent_text nodes" and "Text [] \<notin> set nodes"
  shows "nodes = parseInline S"
  using parses_in_unique[of nodes S "[]" "parseInline S"] assms
    parseInline_parses[of S] parseInline_no_adjacent[of S] parseInline_no_empty_text[of S]
  by (simp add: parses_def)



section \<open>Properties of the block scanner\<close>

lemma nested_loop_end:
  "\<not> i < length lines \<Longrightarrow> nested_loop lines isOrdered i acc = (i, acc)"
  by (simp add: nested_loop.simps[of lines isOrdered i])

lemma nested_loop_item:
  "i < length lines \<Longrightarrow> nestedPattern isOrdered (trim (lines ! i)) = Some g \<Longrightarrow>
   nested_loop lines isOrdered i acc
     = nested_loop lines isOrdered (i + 1) (acc @ [ListItem (parseInline g) None])"
  by (simp add: nested_loop.simps[of lines isOrdered i])

lemma nested_loop_blank:
  "i < length lines \<Longrightarrow> nestedPattern isOrdered (trim (lines ! i)) = None \<Longrightarrow>
   trim (lines ! i) = [] \<Longrightarrow>
   peekNextNonEmpty lines i [nestedPattern isOrdered, mainPattern isOrdered] \<Longrightarrow>
   nested_loop lines isOrdered i acc = nested_loop lines isOrdered (i + 1) acc"
  by (simp add: nested_loop.simps[of lines isOrdered i])

lemma nested_loop_stop:
  "i < length lines \<Longrightarrow> nestedPattern isOrdered (trim (lines ! i)) = None \<Longrightarrow>
   \<not> (trim (lines ! i) = []
      \<and> peekNextNonEmpty lines i [nestedPattern isOrdered, mainPattern isOrdered]) \<Longrightarrow>
   nested_loop lines isOrdered i acc = (i, acc)"
  by (subst nested_loop.simps) (auto simp: Let_def)

lemma nested_loop_cases_induct [case_names finished item blank stop]:
  assumes "\<And>lines isOrdered i acc. \<not> i < length lines \<Longrightarrow> P lines isOrdered i acc"
    and "\<And>lines isOrdered i acc g.
           i < length lines \<Longrightarrow> nestedPattern isOrdered (trim (lines ! i)) = Some g \<Longrightarrow>
           P lines isOrdered (i + 1) (acc @ [ListItem (parseInline g) None]) \<Longrightarrow>
           P lines isOrdered i acc"
    and "\<And>lines isOrdered i acc.
           i < length lines \<Longrightarrow> nestedPattern isOrdered (trim (lines ! i)) = None \<Longrightarrow>
           trim (lines ! i) = [] \<Longrightarrow>
           peekNextNonEmpty lines i [nestedPattern isOrdered, mainPattern isOrdered] \<Longrightarrow>
           P lines isOrdered (i + 1) acc \<Longrightarrow> P lines isOrdered i acc"
    and "\<And>lines isOrdered i acc.
           i < length lines \<Longrightarrow> nestedPattern isOrdered (trim (lines ! i)) = None \<Longrightarrow>
           \<not> (trim (lines ! i) = []
              \<and> peekNextNonEmpty lines i [nestedPattern isOrdered, mainPattern isOrdered]) \<Longrightarrow>
           P lines isOrdered i acc"
  shows "P lines isOrdered i acc"
proof (induction lines isOrdered i acc rule: nested_loop.induct)
  case (1 lines isOrdered i nestedItems)
  note IH1 = "1.IH"(1)[OF _ refl refl] and IH2 = "1.IH"(2)[OF _ refl refl]
  show ?case
  proof (cases "i < length lines")
    case False
    then show ?thesis by (rule assms(1))
  next
    case True
    show ?thesis
    proof (cases "nestedPattern isOrdered (trim (lines ! i))")
      case (Some g)
      with IH1[OF True] have "P lines isOrdered (i + 1) (nestedItems @ [ListItem (parseInline g) None])"
        by simp
      with True Some show ?thesis by (rule assms(2))
    next
      case None
      show ?thesis
      proof (cases "trim (lines ! i) = []
              \<and> peekNextNonEmpty lines i [nestedPattern isOrdered, mainPattern isOrdered]")
        case True
        with IH2[OF \<open>i < length lines\<close>] None have "P lines isOrdered (i + 1) nestedItems" by simp
        with True show ?thesis using \<open>i < length lines\<close> None by (intro assms(3)[of i lines isOrdered]) auto
      next
        case False
        with \<open>i < length lines\<close> None show ?thesis by (rule assms(4))
      qed
    qed
  qed
qed

lemma main_loop_end:
  "\<not> i < length lines \<Longrightarrow> main_loop lines isOrdered i items = (i, items)"
  by (simp add: main_loop.simps[of lines isOrdered i])

lemma main_loop_item:
  "i < length lines \<Longrightarrow> mainPattern isOrdered (trim (lines ! i)) = Some g \<Longrightarrow>
   nested_loop lines isOrdered (i + 1) [] = (i', nestedItems) \<Longrightarrow>
   main_loop lines isOrdered i items
     = main_loop lines isOrdered i' (items @ [mk_item isOrdered g nestedItems])"
  by (simp add: main_loop.simps[of lines isOrdered i] mk_item_def)

lemma main_loop_blank:
  "i < length lines \<Longrightarrow> mainPattern isOrdered (trim (lines ! i)) = None \<Longrightarrow>
   trim (lines ! i) = [] \<Longrightarrow> peekNextNonEmpty lines i [mainPattern isOrdered] \<Longrightarrow>
   main_loop lines isOrdered i items = main_loop lines isOrdered (i + 1) items"
  by (simp add: main_loop.simps[of lines isOrdered i])

lemma main_loop_stop:
  "i < length lines \<Longrightarrow> mainPattern isOrdered (trim (lines ! i)) = None \<Longrightarrow>
   \<not> (trim (lines ! i) = [] \<and> peekNextNonEmpty lines i [mainPattern isOrdered]) \<Longrightarrow>
   main_loop lines isOrdered i items = (i, items)"
  by (subst main_loop.simps) (auto simp: Let_def)

lemma main_loop_cases_induct [case_names finished item blank stop]:
  assumes "\<And>lines isOrdered i items. \<not> i < length lines \<Longrightarrow> P lines isOrdered i items"
    and "\<And>lines isOrdered i items g i' nestedItems.
           i < length lines \<Longrightarrow> mainPattern isOrdered (trim (lines ! i)) = Some g \<Longrightarrow>
           nested_loop lines isOrdered (i + 1) [] = (i', nestedItems) \<Longrightarrow>
           P lines isOrdered i' (items @ [mk_item isOrdered g nestedItems]) \<Longrightarrow>
           P lines isOrdered i items"
    and "\<And>lines isOrdered i items.
           i < length lines \<Longrightarrow> mainPattern isOrdered (trim (lines ! i)) = None \<Longrightarrow>
           trim (lines ! i) = [] \<Longrightarrow> peekNextNonEmpty lines i [mainPattern isOrdered] \<Longrightarrow>
           P lines isOrdered (i + 1) items \<Longrightarrow> P lines isOrdered i items"
    and "\<And>lines isOrdered i items.
           i < length lines \<Longrightarrow> mainPattern isOrdered (trim (lines ! i)) = None \<Longrightarrow>
           \<not> (trim (lines ! i) = [] \<and> peekNextNonEmpty lines i [mainPattern isOrdered]) \<Longrightarrow>
           P lines isOrdered i items"
  shows "P lines isOrdered i items"
proof (induction lines isOrdered i items rule: main_loop.induct)
  case (1 lines isOrdered i items)
  obtain i' nestedItems where nl: "nested_loop lines isOrdered (i + 1) [] = (i', nestedItems)"
    by (cases "nested_loop lines isOrdered (i + 1) []")
  note IH1 = "1.IH"(1)[OF _ refl refl _ refl nl[symmetric] refl refl]
    and IH2 = "1.IH"(2)[OF _ refl refl]
  show ?case
  proof (cases "i < length lines")
    case False
    then show ?thesis by (rule assms(1))
  next
    case True
    show ?thesis
    proof (cases "mainPattern isOrdered (trim (lines ! i))")
      case (Some g)
      with IH1[OF True] have "P lines isOrdered i' (items @ [mk_item isOrdered g nestedItems])"
        by (simp add: mk_item_def)
      with True Some nl show ?thesis by (rule assms(2))
    next
      case None
      show ?thesis
      proof (cases "trim (lines ! i) = [] \<and> peekNextNonEmpty lines i [mainPattern isOrdered]")
        case True
        with IH2[OF \<open>i < length lines\<close>] None have "P lines isOrdered (i + 1) items" by simp
        with True show ?thesis using \<open>i < length lines\<close> None by (intro assms(3)[of i lines isOrdered]) auto
      next
        case False
        with \<open>i < length lines\<close> None show ?thesis by (rule assms(4))
      qed
    qed
  qed
qed

lemma nested_loop_children:
  assumes Q: "\<And>s. Q (parseInline s)"
    and "\<forall>it\<in>set acc. \<forall>ch\<in>set (item_children it). Q ch"
  shows "\<forall>it\<in>set (snd (nested_loop lines isOrdered i acc)). \<forall>ch\<in>set (item_children it). Q ch"
  using assms(2)
proof (induction lines isOrdered i acc rule: nested_loop_cases_induct)
  case (item lines isOrdered i acc g)
  then show ?case using Q by (simp add: nested_loop_item)
qed (simp_all add: nested_loop_end nested_loop_blank nested_loop_stop)

lemma main_loop_children:
  assumes Q: "\<And>s. Q (parseInline s)"
    and "\<forall>it\<in>set acc. \<forall>ch\<in>set (item_children it). Q ch"
  shows "\<forall>it\<in>set (snd (main_loop lines isOrdered i acc)). \<forall>ch\<in>set (item_children it). Q ch"
  using assms(2)
proof (induction lines isOrdered i acc rule: main_loop_cases_induct)
  case (item lines isOrdered i items g i' nestedItems)
  have "\<forall>it\<in>set nestedItems. \<forall>ch\<in>set (item_children it). Q ch"
    using nested_loop_children[of Q "[]" lines isOrdered "i + 1"] Q item(3) by simp
  with item(5) Q
  have "\<forall>it\<in>set (items @ [mk_item isOrdered g nestedItems]). \<forall>ch\<in>set (item_children it). Q ch"
    by (auto simp: mk_item_def)
  from item(4)[OF this] show ?case
    by (subst main_loop_item[OF item(1,2,3)]) assumption
qed (simp_all add: main_loop_end main_loop_blank main_loop_stop)

lemma parseList_Some:
  "line_at lines startIndex = Some l \<Longrightarrow>
   parseList lines startIndex =
     Some (Some (ListNode (PATTERNS_ordered (trim l) \<noteq> None)
                   (snd (main_loop lines (PATTERNS_ordered (trim l) \<noteq> None) startIndex []))),
           fst (main_loop lines (PATTERNS_ordered (trim l) \<noteq> None) startIndex []))"
  unfolding parseList_def Let_def by (simp only: option.case case_prod_beta)

lemma parseList_None: "line_at lines startIndex = None \<Longrightarrow> parseList lines startIndex = None"
  unfolding parseList_def by simp

lemma parseLine_cases:
  assumes "parseLine lines i = Some (Some b, n)"
  shows "parseCodeBlock lines i = Some (Some b, n)
    \<or> (\<exists>level content. b = Heading level (parseInline content))
    \<or> b = Hr
    \<or> parseBlockquote lines i = Some (Some b, n)
    \<or> parseList lines i = Some (Some b, n)
    \<or> (\<exists>l. b = Paragraph (parseInline l))"
proof -
  from assms obtain l where l: "line_at lines i = Some l"
    by (auto simp: parseLine_def split: option.splits)
  show ?thesis
  proof (cases "trim l = []")
    case True
    with assms l show ?thesis by (simp add: parseLine_def)
  next
    case ne: False
    show ?thesis
    proof (cases "PATTERNS_codeBlockStart (trim l)")
      case True
      with assms l ne show ?thesis by (simp add: parseLine_def)
    next
      case nc: False
      show ?thesis
      proof (cases "PATTERNS_heading (trim l)")
        case (Some h)
        with assms l ne nc show ?thesis by (cases h) (auto simp: parseLine_def)
      next
        case None
        with assms l ne nc show ?thesis
          by (auto simp: parseLine_def Let_def split: if_splits)
      qed
    qed
  qed
qed

lemma parseLine_children:
  assumes Q: "\<And>s. Q (parseInline s)"
    and pl: "parseLine lines i = Some (Some b, n)"
  shows "\<forall>ch\<in>set (block_children b). Q ch"
proof -
  have cb: "parseCodeBlock lines i = Some (Some b, n) \<Longrightarrow> block_children b = []"
    by (auto simp: parseCodeBlock_def Let_def split: option.splits prod.splits)
  have bq: "parseBlockquote lines i = Some (Some b, n) \<Longrightarrow> \<exists>s. block_children b = [parseInline s]"
    by (auto simp: parseBlockquote_def Let_def split: option.splits prod.splits)
  have pl: "parseList lines i = Some (Some b, n) \<Longrightarrow> ?thesis"
  proof (cases "line_at lines i")
    case None
    assume "parseList lines i = Some (Some b, n)"
    with parseList_None[OF None] show ?thesis by simp
  next
    case (Some l)
    assume "parseList lines i = Some (Some b, n)"
    with parseList_Some[OF Some]
    have "b = ListNode (PATTERNS_ordered (trim l) \<noteq> None)
                (snd (main_loop lines (PATTERNS_ordered (trim l) \<noteq> None) i []))"
      by (simp only: option.inject prod.inject)
    then show ?thesis
      using main_loop_children[of Q "[]" lines "PATTERNS_ordered (trim l) \<noteq> None" i] Q
      by (simp only: block_children.simps set_concat set_map) fastforce
  qed
  from parseLine_cases[OF assms(2)] show ?thesis
  proof (elim disjE exE)
    assume "parseCodeBlock lines i = Some (Some b, n)"
    from cb[OF this] show ?thesis by simp
  next
    assume "parseBlockquote lines i = Some (Some b, n)"
    from bq[OF this] Q show ?thesis by auto
  next
    assume "parseList lines i = Some (Some b, n)"
    from pl[OF this] show ?thesis .
  qed (simp_all add: Q)
qed

lemma parse_loop_children:
  assumes Q: "\<And>s. Q (parseInline s)"
    and "parse_loop lines i nodes = Some res"
    and "\<forall>b\<in>set nodes. \<forall>ch\<in>set (block_children b). Q ch"
  shows "\<forall>b\<in>set res. \<forall>ch\<in>set (block_children b). Q ch"
  using assms(2,3)
proof (induction lines i nodes rule: parse_loop.induct)
  case (1 lines i nodes)
  show ?case
  proof (cases "i < length lines")
    case False
    with "1.prems" show ?thesis by (simp add: parse_loop.simps[of lines i])
  next
    case True
    with "1.prems"(1) obtain node nextIndex where
      pl: "parseLine lines i = Some (node, nextIndex)"
      and rest: "parse_loop lines nextIndex (case node of None \<Rightarrow> nodes | Some n \<Rightarrow> nodes @ [n]) = Some res"
      by (auto simp: parse_loop.simps[of lines i] split: option.splits)
    have "\<forall>b\<in>set (case node of None \<Rightarrow> nodes | Some n \<Rightarrow> nodes @ [n]). \<forall>ch\<in>set (block_children b). Q ch"
      using "1.prems"(2) parseLine_children[of Q lines i _ nextIndex] Q pl
      by (auto split: option.splits)
    from "1.IH"[OF True pl refl rest this] show ?thesis .
  qed
qed

lemma parseLine_total:
  assumes "i < length lines"
  shows "\<exists>node nextIndex. parseLine lines i = Some (node, nextIndex)"
proof -
  have l: "line_at lines i = Some (lines ! i)" using assms by (simp add: line_at_def)
  have cb: "\<exists>r. parseCodeBlock lines i = Some r"
    by (simp add: parseCodeBlock_def Let_def l case_prod_beta)
  have bq: "\<exists>r. parseBlockquote lines i = Some r"
    by (simp add: parseBlockquote_def Let_def case_prod_beta)
  have pl: "\<exists>r. parseList lines i = Some r"
    using parseList_Some[OF l] by simp
  have "\<exists>r. parseLine lines i = Some r"
    using cb bq pl by (simp add: parseLine_def Let_def l split: option.split)
  then show ?thesis by auto
qed

lemma parse_loop_total: "\<exists>nodes'. parse_loop lines i nodes = Some nodes'"
proof (induction lines i nodes rule: parse_loop.induct)
  case (1 lines i nodes)
  show ?case
  proof (cases "i < length lines")
    case False
    then show ?thesis by (simp add: parse_loop.simps[of lines i])
  next
    case True
    from parseLine_total[OF True] obtain node nextIndex where
      pl: "parseLine lines i = Some (node, nextIndex)" by auto
    from "1.IH"[OF True pl refl] True pl show ?thesis
      by (subst parse_loop.simps) simp
  qed
qed

lemma parseMarkdown_children:
  assumes "\<And>s. Q (parseInline s)" and "parseMarkdown text = Some nodes"
  shows "\<forall>b\<in>set nodes. \<forall>ch\<in>set (block_children b). Q ch"
  using parse_loop_children[of Q "split_lines text" 0 "[]" nodes] assms
  by (simp add: parseMarkdown_def)

lemma code_loop_takeWhile:
  "i \<le> length lines \<Longrightarrow>
   code_loop lines i acc =
     (i + length (takeWhile (\<lambda>l. \<not> PATTERNS_codeBlockStart (trim l)) (drop i lines)),
      acc @ takeWhile (\<lambda>l. \<not> PATTERNS_codeBlockStart (trim l)) (drop i lines))"
proof (induction lines i acc rule: code_loop.induct)
  case (1 lines i codeLines)
  show ?case
  proof (cases "i < length lines")
    case False
    with "1.prems" show ?thesis by (subst code_loop.simps) simp
  next
    case True
    then have d: "drop i lines = lines ! i # drop (i + 1) lines"
      by (simp add: Cons_nth_drop_Suc)
    show ?thesis
    proof (cases "PATTERNS_codeBlockStart (trim (lines ! i))")
      case fence: True
      with True d show ?thesis by (subst code_loop.simps) simp
    next
      case False
      with True have c: "i < length lines \<and> \<not> PATTERNS_codeBlockStart (trim (lines ! i))" by simp
      from True have "i + 1 \<le> length lines" by simp
      from "1.IH"[OF c this] c d show ?thesis by (subst code_loop.simps) simp
    qed
  qed
qed

lemma nested_loop_unnested:
  "list_all item_unnested acc \<Longrightarrow>
   list_all item_unnested (snd (nested_loop lines isOrdered i acc))"
proof (induction lines isOrdered i acc rule: nested_loop_cases_induct)
  case (item lines isOrdered i acc g)
  then show ?case by (simp add: nested_loop_item)
qed (simp_all add: nested_loop_end nested_loop_blank nested_loop_stop)

lemma main_loop_nesting:
  "list_all (item_nesting_ok isOrdered) items \<Longrightarrow>
   list_all (item_nesting_ok isOrdered) (snd (main_loop lines isOrdered i items))"
proof (induction lines isOrdered i items rule: main_loop_cases_induct)
  case (item lines isOrdered i items g i' nestedItems)
  have "list_all item_unnested nestedItems"
    using nested_loop_unnested[of "[]" lines isOrdered "i + 1"] item(3) by simp
  with item(5) have "list_all (item_nesting_ok isOrdered) (items @ [mk_item isOrdered g nestedItems])"
    by (simp add: mk_item_def)
  from item(4)[OF this] show ?case
    by (subst main_loop_item[OF item(1,2,3)]) assumption
qed (simp_all add: main_loop_end main_loop_blank main_loop_stop)

lemma parseLine_nesting:
  assumes "parseLine lines i = Some (Some b, n)"
  shows "nesting_ok b"
proof -
  have cb: "parseCodeBlock lines i = Some (Some b, n) \<Longrightarrow> nesting_ok b"
    by (auto simp: parseCodeBlock_def Let_def split: option.splits prod.splits)
  have bq: "parseBlockquote lines i = Some (Some b, n) \<Longrightarrow> nesting_ok b"
    by (auto simp: parseBlockquote_def Let_def split: option.splits prod.splits)
  have pl: "parseList lines i = Some (Some b, n) \<Longrightarrow> nesting_ok b"
  proof (cases "line_at lines i")
    case None
    assume "parseList lines i = Some (Some b, n)"
    with parseList_None[OF None] show ?thesis by simp
  next
    case (Some l)
    assume "parseList lines i = Some (Some b, n)"
    with parseList_Some[OF Some]
    have "b = ListNode (PATTERNS_ordered (trim l) \<noteq> None)
                (snd (main_loop lines (PATTERNS_ordered (trim l) \<noteq> None) i []))"
      by (simp only: option.inject prod.inject)
    then show ?thesis
      using main_loop_nesting[of "PATTERNS_ordered (trim l) \<noteq> None" "[]" lines i]
      by (simp only: nesting_ok.simps list.pred_inject)
  qed
  from parseLine_cases[OF assms] cb bq pl show ?thesis by auto
qed

lemma parse_loop_invariant:
  assumes "parse_loop lines i nodes = Some res"
    and "\<forall>i b n. parseLine lines i = Some (Some b, n) \<longrightarrow> B b"
    and "list_all B nodes"
  shows "list_all B res"
  using assms
proof (induction lines i nodes rule: parse_loop.induct)
  case (1 lines i nodes)
  show ?case
  proof (cases "i < length lines")
    case False
    with "1.prems" show ?thesis by (simp add: parse_loop.simps[of lines i])
  next
    case True
    with "1.prems"(1) obtain node nextIndex where
      pl: "parseLine lines i = Some (node, nextIndex)"
      and rest: "parse_loop lines nextIndex (case node of None \<Rightarrow> nodes | Some n \<Rightarrow> nodes @ [n]) = Some res"
      by (auto simp: parse_loop.simps[of lines i] split: option.splits)
    have "list_all B (case node of None \<Rightarrow> nodes | Some n \<Rightarrow> nodes @ [n])"
      using "1.prems"(2,3) pl by (auto split: option.splits)
    from "1.IH"[OF True pl refl rest "1.prems"(2) this] show ?thesis .
  qed
qed

lemma PATTERNS_ordered_Nil: "PATTERNS_ordered [] = None"
  by (simp add: PATTERNS_ordered_def)

lemma PATTERNS_unordered_Nil: "PATTERNS_unordered [] = None"
  by (simp add: PATTERNS_unordered_def)

lemma PATTERNS_disjoint:
  "PATTERNS_ordered s = None \<or> PATTERNS_unordered s = None"
proof (cases s)
  case Nil
  then show ?thesis by (simp add: PATTERNS_ordered_Nil)
next
  case (Cons c r)
  show ?thesis
  proof (cases "isDigit c")
    case True
    then have "c \<noteq> 0x2D \<and> c \<noteq> 0x2A \<and> c \<noteq> 0x2B" by (auto simp: isDigit_def)
    with Cons show ?thesis by (simp add: PATTERNS_unordered_def)
  next
    case False
    with Cons show ?thesis by (simp add: PATTERNS_ordered_def)
  qed
qed

lemma pattern_Nil: "mainPattern isOrdered [] = None" "nestedPattern isOrdered [] = None"
  by (simp_all add: mainPattern_def nestedPattern_def PATTERNS_ordered_Nil PATTERNS_unordered_Nil)

lemma main_excludes_nested:
  "mainPattern isOrdered s = Some g \<Longrightarrow> nestedPattern isOrdered s = None"
  using PATTERNS_disjoint[of s] by (auto simp: mainPattern_def nestedPattern_def split: if_splits)

lemma nested_excludes_main:
  "nestedPattern isOrdered s = Some g \<Longrightarrow> mainPattern isOrdered s = None"
  using PATTERNS_disjoint[of s] by (auto simp: mainPattern_def nestedPattern_def split: if_splits)

lemma main_or_nested:
  "(mainPattern isOrdered s \<noteq> None \<or> nestedPattern isOrdered s \<noteq> None)
     \<longleftrightarrow> (PATTERNS_ordered s \<noteq> None \<or> PATTERNS_unordered s \<noteq> None)"
  by (auto simp: mainPattern_def nestedPattern_def)

lemma peek_both_iff:
  "peekNextNonEmpty lines n [nestedPattern isOrdered, mainPattern isOrdered]
     \<longleftrightarrow> list_item_at lines (n + 1)"
  using main_or_nested[of isOrdered "trim (lines ! (n + 1))"]
  by (auto simp: peekNextNonEmpty_def list_item_at_def Let_def)

lemma peek_main_imp_both:
  "peekNextNonEmpty lines n [mainPattern isOrdered] \<Longrightarrow>
   peekNextNonEmpty lines n [nestedPattern isOrdered, mainPattern isOrdered]"
  by (auto simp: peekNextNonEmpty_def Let_def split: if_splits)

lemma nested_loop_extends: "\<exists>rest. snd (nested_loop lines isOrdered i acc) = acc @ rest"
proof (induction lines isOrdered i acc rule: nested_loop_cases_induct)
  case (item lines isOrdered i acc g)
  then show ?case by (auto simp: nested_loop_item)
qed (simp_all add: nested_loop_end nested_loop_blank nested_loop_stop)

lemma main_loop_extends: "\<exists>rest. snd (main_loop lines isOrdered i items) = items @ rest"
proof (induction lines isOrdered i items rule: main_loop_cases_induct)
  case (item lines isOrdered i items g i' nestedItems)
  from item(4) show ?case
    by (subst main_loop_item[OF item(1,2,3)]) auto
qed (simp_all add: main_loop_end main_loop_blank main_loop_stop)

lemma loops_stop_at_blank:
  assumes "blank_at lines j" and "\<not> list_item_at lines (j + 1)"
  shows "nested_loop lines isOrdered j acc = (j, acc)"
    and "main_loop lines isOrdered j items = (j, items)"
proof -
  from assms(1) have j: "j < length lines" and b: "trim (lines ! j) = []"
    by (simp_all add: blank_at_def)
  have np: "\<not> peekNextNonEmpty lines j [nestedPattern isOrdered, mainPattern isOrdered]"
    using assms(2) by (simp add: peek_both_iff)
  then have mp: "\<not> peekNextNonEmpty lines j [mainPattern isOrdered]"
    using peek_main_imp_both by blast
  show "nested_loop lines isOrdered j acc = (j, acc)"
    using j b np by (intro nested_loop_stop) (simp_all add: pattern_Nil)
  show "main_loop lines isOrdered j items = (j, items)"
    using j b mp by (intro main_loop_stop) (simp_all add: pattern_Nil)
qed

lemma not_list_item_cases:
  "blank_at lines k \<or> nonlist_at lines k \<Longrightarrow> \<not> list_item_at lines k"
  by (auto simp: blank_at_def nonlist_at_def list_item_at_def
                 PATTERNS_ordered_Nil PATTERNS_unordered_Nil)

lemma main_items_across_blank:
  assumes "item_at (mainPattern isOrdered) lines i g1"
    and "blank_at lines (i + 1)"
    and "item_at (mainPattern isOrdered) lines (i + 2) g2"
  shows "\<exists>nestedItems rest.
           snd (main_loop lines isOrdered i items)
             = items @ [mk_item isOrdered g1 [], mk_item isOrdered g2 nestedItems] @ rest"
proof -
  from assms have i: "i < length lines" and i1: "i + 1 < length lines" and i2: "i + 2 < length lines"
    and m1: "mainPattern isOrdered (trim (lines ! i)) = Some g1"
    and b: "trim (lines ! (i + 1)) = []"
    and m2: "mainPattern isOrdered (trim (lines ! (i + 2))) = Some g2"
    by (simp_all add: item_at_def blank_at_def)
  have li: "list_item_at lines (i + 1 + 1)"
    using i2 m2 main_or_nested[of isOrdered "trim (lines ! (i + 2))"]
    by (simp add: list_item_at_def)
  have ne2: "trim (lines ! (i + 2)) \<noteq> []" using m2 by (auto simp: pattern_Nil)
  have "nested_loop lines isOrdered (i + 1) [] = nested_loop lines isOrdered (i + 1 + 1) []"
    using i1 b li by (intro nested_loop_blank) (simp_all add: pattern_Nil peek_both_iff)
  also have "\<dots> = (i + 2, [])"
    using i2 main_excludes_nested[OF m2] ne2
    by (simp add: nested_loop_stop)
  finally have n1: "nested_loop lines isOrdered (i + 1) [] = (i + 2, [])" .
  obtain i' nestedItems where
    n2: "nested_loop lines isOrdered (i + 2 + 1) [] = (i', nestedItems)"
    by (cases "nested_loop lines isOrdered (i + 2 + 1) []")
  have "main_loop lines isOrdered i items
          = main_loop lines isOrdered (i + 2) (items @ [mk_item isOrdered g1 []])"
    by (rule main_loop_item[OF i m1 n1])
  also have "\<dots> = main_loop lines isOrdered i'
                     ((items @ [mk_item isOrdered g1 []]) @ [mk_item isOrdered g2 nestedItems])"
    by (rule main_loop_item[OF i2 m2 n2])
  finally have "main_loop lines isOrdered i items = main_loop lines isOrdered i'
                     (items @ [mk_item isOrdered g1 [], mk_item isOrdered g2 nestedItems])"
    by simp
  moreover from main_loop_extends obtain rest where
    "snd (main_loop lines isOrdered i'
            (items @ [mk_item isOrdered g1 [], mk_item isOrdered g2 nestedItems]))
       = (items @ [mk_item isOrdered g1 [], mk_item isOrdered g2 nestedItems]) @ rest"
    by blast
  ultimately show ?thesis by auto
qed

lemma nested_items_across_blank:
  assumes "item_at (nestedPattern isOrdered) lines i g1"
    and "blank_at lines (i + 1)"
    and "item_at (nestedPattern isOrdered) lines (i + 2) g2"
  shows "\<exists>rest. snd (nested_loop lines isOrdered i acc)
           = acc @ [ListItem (parseInline g1) None, ListItem (parseInline g2) None] @ rest"
proof -
  from assms have i: "i < length lines" and i1: "i + 1 < length lines" and i2: "i + 2 < length lines"
    and m1: "nestedPattern isOrdered (trim (lines ! i)) = Some g1"
    and b: "trim (lines ! (i + 1)) = []"
    and m2: "nestedPattern isOrdered (trim (lines ! (i + 2))) = Some g2"
    by (simp_all add: item_at_def blank_at_def)
  have li: "list_item_at lines (i + 1 + 1)"
    using i2 m2 main_or_nested[of isOrdered "trim (lines ! (i + 2))"]
    by (simp add: list_item_at_def)
  have "nested_loop lines isOrdered i acc
          = nested_loop lines isOrdered (i + 1) (acc @ [ListItem (parseInline g1) None])"
    by (rule nested_loop_item[OF i m1])
  also have "\<dots> = nested_loop lines isOrdered (i + 1 + 1) (acc @ [ListItem (parseInline g1) None])"
    using i1 b li by (intro nested_loop_blank) (simp_all add: pattern_Nil peek_both_iff)
  also have "\<dots> = nested_loop lines isOrdered (i + 2 + 1)
                     ((acc @ [ListItem (parseInline g1) None]) @ [ListItem (parseInline g2) None])"
    using nested_loop_item[OF i2 m2] by simp
  finally have "nested_loop lines isOrdered i acc = nested_loop lines isOrdered (i + 2 + 1)
                     (acc @ [ListItem (parseInline g1) None, ListItem (parseInline g2) None])"
    by simp
  moreover from nested_loop_extends obtain rest where
    "snd (nested_loop lines isOrdered (i + 2 + 1)
            (acc @ [ListItem (parseInline g1) None, ListItem (parseInline g2) None]))
       = (acc @ [ListItem (parseInline g1) None, ListItem (parseInline g2) None]) @ rest"
    by blast
  ultimately show ?thesis by auto
qed

lemma main_item_then_stop:
  assumes "item_at (mainPattern isOrdered) lines i g"
    and "blank_at lines (i + 1)"
    and "\<not> list_item_at lines (i + 1 + 1)"
  shows "main_loop lines isOrdered i items = (i + 1, items @ [mk_item isOrdered g []])"
proof -
  from assms(1) have i: "i < length lines"
    and m: "mainPattern isOrdered (trim (lines ! i)) = Some g"
    by (simp_all add: item_at_def)
  have "main_loop lines isOrdered i items
          = main_loop lines isOrdered (i + 1) (items @ [mk_item isOrdered g []])"
    by (rule main_loop_item[OF i m loops_stop_at_blank(1)[OF assms(2,3)]])
  also have "\<dots> = (i + 1, items @ [mk_item isOrdered g []])"
    by (rule loops_stop_at_blank(2)[OF assms(2,3)])
  finally show ?thesis .
qed

lemma nested_loop_stops:
  "i \<le> length lines \<Longrightarrow> nested_stops lines isOrdered (fst (nested_loop lines isOrdered i acc))"
proof (induction lines isOrdered i acc rule: nested_loop_cases_induct)
  case (finished lines isOrdered i acc)
  then show ?case by (simp add: nested_loop_end nested_stops_def)
next
  case (item lines isOrdered i acc g)
  then show ?case by (simp add: nested_loop_item)
next
  case (blank lines isOrdered i acc)
  then show ?case by (simp add: nested_loop_blank)
next
  case (stop lines isOrdered i acc)
  then show ?case
    by (auto simp: nested_loop_stop nested_stops_def blank_at_def peek_both_iff)
qed

lemma main_loop_stops:
  "(i < length lines \<and> mainPattern isOrdered (trim (lines ! i)) \<noteq> None)
     \<or> nested_stops lines isOrdered i \<Longrightarrow>
   stops_here lines (fst (main_loop lines isOrdered i items))"
proof (induction lines isOrdered i items rule: main_loop_cases_induct)
  case (finished lines isOrdered i items)
  then show ?case by (auto simp: main_loop_end nested_stops_def stops_here_def)
next
  case (item lines isOrdered i items g i' nestedItems)
  have "nested_stops lines isOrdered i'"
    using nested_loop_stops[of "i + 1" lines isOrdered "[]"] item(1,3) by simp
  from item(4)[OF disjI2[OF this]] show ?case
    by (subst main_loop_item[OF item(1,2,3)]) assumption
next
  case (blank lines isOrdered i items)
  from blank(1,2,6) have "nested_stops lines isOrdered i" by auto
  with blank(1,3) have "\<not> list_item_at lines (i + 1)"
    by (simp add: nested_stops_def blank_at_def)
  with peek_main_imp_both[OF blank(4)] have False by (simp add: peek_both_iff)
  then show ?case ..
next
  case (stop lines isOrdered i items)
  from stop(1,2,4) have ns: "nested_stops lines isOrdered i" by auto
  have "\<not> list_item_at lines i"
    using ns stop(1,2) main_or_nested[of isOrdered "trim (lines ! i)"]
    by (simp add: nested_stops_def list_item_at_def)
  with ns stop(1) show ?case
    by (simp add: main_loop_stop[OF stop(1,2,3)] nested_stops_def stops_here_def)
qed

lemma parseList_stops:
  assumes "list_item_at lines i"
  shows "\<exists>node n. parseList lines i = Some (Some node, n) \<and> i < n \<and> stops_here lines n"
proof -
  from assms have i: "i < length lines" by (simp add: list_item_at_def)
  then have l: "line_at lines i = Some (lines ! i)" by (simp add: line_at_def)
  let ?o = "PATTERNS_ordered (trim (lines ! i)) \<noteq> None"
  have m: "mainPattern ?o (trim (lines ! i)) \<noteq> None"
    using assms by (auto simp: list_item_at_def mainPattern_def)
  then obtain g where g: "mainPattern ?o (trim (lines ! i)) = Some g" by auto
  obtain i' nestedItems where nl: "nested_loop lines ?o (i + 1) [] = (i', nestedItems)"
    by (cases "nested_loop lines ?o (i + 1) []")
  have "i + 1 \<le> i'" using nested_loop_bounds[of "i + 1" lines ?o "[]"] nl by simp
  moreover have "i' \<le> fst (main_loop lines ?o i' ([] @ [mk_item ?o g nestedItems]))"
    by (rule main_loop_bounds)
  moreover have "main_loop lines ?o i [] = main_loop lines ?o i' ([] @ [mk_item ?o g nestedItems])"
    by (rule main_loop_item[OF i g nl])
  ultimately have lt: "i < fst (main_loop lines ?o i [])" by simp
  have st: "stops_here lines (fst (main_loop lines ?o i []))"
    using i m by (intro main_loop_stops) simp
  from parseList_Some[OF l] lt st show ?thesis by blast
qed

lemma nested_loop_skips_blank:
  assumes "blank_at lines j" and "list_item_at lines (j + 1)"
  shows "nested_loop lines isOrdered j acc = nested_loop lines isOrdered (j + 1) acc"
  using assms by (intro nested_loop_blank) (simp_all add: blank_at_def pattern_Nil peek_both_iff)

lemma try_ws_Some: "try_ws k r = Some g \<Longrightarrow> 0 < k"
  by (cases k) simp_all

lemma ws_rest_Some:
  assumes "ws_rest r = Some g"
  shows "\<exists>w r'. r = w # r' \<and> isWhiteSpace w"
proof -
  from assms have "takeWhile isWhiteSpace r \<noteq> []"
    using try_ws_Some[of "length (takeWhile isWhiteSpace r)" r g] by (simp add: ws_rest_def)
  then show ?thesis by (cases r) (auto split: if_splits)
qed

lemma PATTERNS_ordered_Some:
  assumes "PATTERNS_ordered s = Some g"
  shows "\<exists>c r. s = c # r \<and> isDigit c"
proof -
  from assms have "takeWhile isDigit s \<noteq> []"
    by (auto simp: PATTERNS_ordered_def Let_def split: if_splits)
  then show ?thesis by (cases s) (auto split: if_splits)
qed

lemma PATTERNS_unordered_Some:
  assumes "PATTERNS_unordered s = Some g"
  shows "\<exists>c w r. s = c # w # r \<and> c \<in> set [0x2D, 0x2A, 0x2B] \<and> isWhiteSpace w"
proof -
  from assms obtain c r where s: "s = c # r" and c: "c \<in> set [0x2D, 0x2A, 0x2B]"
    and w: "ws_rest r = Some g"
    by (auto simp: PATTERNS_unordered_def split: list.splits if_splits)
  from ws_rest_Some[OF w] s c show ?thesis by blast
qed

lemma list_item_not_other_block:
  assumes "PATTERNS_ordered s \<noteq> None \<or> PATTERNS_unordered s \<noteq> None"
  shows "s \<noteq> [] \<and> \<not> PATTERNS_codeBlockStart s \<and> PATTERNS_heading s = None
         \<and> \<not> PATTERNS_hr s \<and> \<not> startsWith s [0x3E]"
  using assms
proof
  assume "PATTERNS_ordered s \<noteq> None"
  then obtain g where "PATTERNS_ordered s = Some g" by auto
  from PATTERNS_ordered_Some[OF this] obtain c r where s: "s = c # r" and d: "isDigit c" by blast
  from d have "c \<noteq> 0x60 \<and> c \<noteq> 0x23 \<and> c \<noteq> 0x2D \<and> c \<noteq> 0x2A \<and> c \<noteq> 0x5F \<and> c \<noteq> 0x3E"
    by (auto simp: isDigit_def)
  with s show ?thesis
    by (simp add: PATTERNS_codeBlockStart_def startsWith_def PATTERNS_heading_def PATTERNS_hr_def)
next
  assume "PATTERNS_unordered s \<noteq> None"
  then obtain g where "PATTERNS_unordered s = Some g" by auto
  from PATTERNS_unordered_Some[OF this] obtain c w r where
    s: "s = c # w # r" and c: "c \<in> set [0x2D, 0x2A, 0x2B]" and w: "isWhiteSpace w" by blast
  from w have "w \<noteq> 0x2D \<and> w \<noteq> 0x2A \<and> w \<noteq> 0x5F"
    by (auto simp: isWhiteSpace_def)
  with s c show ?thesis
    by (auto simp: PATTERNS_codeBlockStart_def startsWith_def PATTERNS_heading_def PATTERNS_hr_def)
qed

lemma parseLine_list_item:
  assumes "list_item_at lines i"
  shows "parseLine lines i = parseList lines i"
proof -
  from assms have i: "line_at lines i = Some (lines ! i)"
    and m: "PATTERNS_ordered (trim (lines ! i)) \<noteq> None \<or> PATTERNS_unordered (trim (lines ! i)) \<noteq> None"
    by (simp_all add: list_item_at_def line_at_def)
  from list_item_not_other_block[OF m] m i show ?thesis
    by (simp add: parseLine_def Let_def)
qed


lemma join_lines_separator:
  "join_lines ls = (case ls of [] \<Rightarrow> [] | l # rest \<Rightarrow> l @ concat (map (\<lambda>x. 0x0A # x) rest))"
  by (induction ls rule: join_lines.induct) simp_all

lemma split_acc_no_feed: "0x0A \<notin> set l \<Longrightarrow> split_acc cur l = [cur @ l]"
  by (induction l arbitrary: cur) auto

lemma split_acc_feed:
  "0x0A \<notin> set l \<Longrightarrow> split_acc cur (l @ 0x0A # rest) = (cur @ l) # split_acc [] rest"
  by (induction l arbitrary: cur) auto

lemma split_lines_join_lines:
  "ls \<noteq> [] \<Longrightarrow> \<forall>l\<in>set ls. 0x0A \<notin> set l \<Longrightarrow> split_lines (join_lines ls) = ls"
proof (induction ls rule: join_lines.induct)
  case 1
  then show ?case by simp
next
  case (2 x)
  then show ?case by (simp add: split_lines_def split_acc_no_feed)
next
  case (3 x y ys)
  then have "split_lines (join_lines (y # ys)) = y # ys" by simp
  with 3 show ?case
    using split_acc_feed[of x "[]" "join_lines (y # ys)"]
    by (simp add: split_lines_def)
qed

lemma split_acc_feed_free:
  "0x0A \<notin> set cur \<Longrightarrow> l \<in> set (split_acc cur s) \<Longrightarrow> 0x0A \<notin> set l"
proof (induction s arbitrary: cur)
  case Nil
  then show ?case by simp
next
  case (Cons c s)
  show ?case
  proof (cases "c = 0x0A")
    case True
    with Cons.prems have "l = cur \<or> l \<in> set (split_acc [] s)" by simp
    then show ?thesis using Cons.prems(1) Cons.IH[of "[]"] by auto
  next
    case False
    with Cons.prems have "l \<in> set (split_acc (cur @ [c]) s)" by simp
    moreover from False Cons.prems(1) have "0x0A \<notin> set (cur @ [c])" by simp
    ultimately show ?thesis by (rule Cons.IH[rotated])
  qed
qed

lemma split_lines_feed_free: "l \<in> set (split_lines s) \<Longrightarrow> 0x0A \<notin> set l"
  using split_acc_feed_free[of "[]" l s] by (simp add: split_lines_def)


section \<open>The examples of the specification\<close>

text \<open>The model run on the examples 1, 3 and 4 of the specification.\<close>

lemma example_heading:
  "parseMarkdown (str ''# Hello'') = Some [Heading 1 [Text (str ''Hello'')]]"
  by code_simp

lemma example_codeblock:
  "parseMarkdown (str ''```js\<newline>const a = 1;\<newline>```'')
     = Some [Codeblock (str ''js'') (str ''const a = 1;'')]"
  by code_simp

lemma example_overlapping_emphasis:
  "parseInline (str ''*a**b*c*'') = [Italic (str ''a''), Italic (str ''b''), Text (str ''c*'')]"
  by code_simp


section \<open>The claims\<close>

text \<open>
  \<^bold>\<open>C1\<close> (totality).  For every input string \<open>S\<close> \<^verbatim>\<open>parseMarkdown\<close> returns a sequence
  of block nodes: the read of a line never leaves the array, so no TypeError is raised, and
  the loop ends (\<open>parse_loop\<close> is total, every call of \<^verbatim>\<open>parseLine\<close> moving the index
  forward).  On the empty string the sequence is empty.
\<close>

theorem parseMarkdown_total:
  "(\<exists>nodes. parseMarkdown S = Some nodes) \<and> parseMarkdown [] = Some []"
proof
  show "\<exists>nodes. parseMarkdown S = Some nodes"
    unfolding parseMarkdown_def by (rule parse_loop_total)
  show "parseMarkdown [] = Some []"
    by code_simp
qed

text \<open>
  \<^bold>\<open>C2\<close> (inline coverage).  For every string \<open>S\<close> the nodes of \<^verbatim>\<open>parseInline(S)\<close> cover
  \<open>S\<close>: \<open>S\<close> is the concatenation, in order and with no gap or overlap, of one span per
  node, each span being the node's literal between the delimiters of its rule, so the
  concatenation of the literals is \<open>S\<close> with only that markup removed (a subsequence of
  \<open>S\<close>).  The markup is recognised: the parse is a strict one (\<open>parses\<close>), where every
  node obeys its rule and no markup starts at any position inside a text node; and, rule
  by rule, a source form of a well-formed node other than text is consumed whole by one
  turn of the loop whatever follows it, and parsed alone gives exactly that node, whose
  literal is the form with its delimiters stripped.  The strict parse determines the
  result: for a non-empty \<open>S\<close>, any strict parse of \<open>S\<close> with no two adjacent text nodes
  and no empty text node is \<^verbatim>\<open>parseInline(S)\<close>.
\<close>

theorem parseInline_covers:
  "covers (parseInline S) S
   \<and> subseq (concat (map literal (parseInline S))) S
   \<and> parses (parseInline S) S
   \<and> (\<not> is_text node \<and> well_formed node \<and> span \<in> set (source_forms node)
        \<longrightarrow> inline_step (span @ r) = (node, r)
            \<and> parseInline span = [node]
            \<and> concat (map literal (parseInline span)) = literal node)
   \<and> (S \<noteq> [] \<and> parses nodes S \<and> no_adjacent_text nodes \<and> Text [] \<notin> set nodes
        \<longrightarrow> nodes = parseInline S)"
proof (intro conjI impI)
  show c: "covers (parseInline S) S"
  proof (cases "S = []")
    case True
    then show ?thesis by (simp add: parseInline_def source_forms_def startsWith_def)
  next
    case False
    have "covers (tokenize S []) ([] @ S)" by (rule tokenize_covers) simp
    then have "covers (foldl merge_step [] (tokenize S [])) ([] @ S)"
      by (intro foldl_merge_covers) simp_all
    with False show ?thesis by (simp add: parseInline_def)
  qed
  from covers_subseq[OF c] show "subseq (concat (map literal (parseInline S))) S" .
  show "parses (parseInline S) S" by (rule parseInline_parses)
next
  assume a: "\<not> is_text node \<and> well_formed node \<and> span \<in> set (source_forms node)"
  then have n: "\<not> is_text node" "well_formed node" "span \<in> set (source_forms node)" by simp_all
  show "inline_step (span @ r) = (node, r)" by (rule markup_recognised(1)[OF n])
  show p: "parseInline span = [node]" by (rule markup_recognised(2)[OF n])
  show "concat (map literal (parseInline span)) = literal node" unfolding p by simp
next
  assume "S \<noteq> [] \<and> parses nodes S \<and> no_adjacent_text nodes \<and> Text [] \<notin> set nodes"
  then show "nodes = parseInline S" using parseInline_only_parse by blast
qed

theorem parseInline_covers_witness:
  "\<not> is_text (Code (str ''c'')) \<and> well_formed (Code (str ''c''))
   \<and> str ''`c`'' \<in> set (source_forms (Code (str ''c'')))
   \<and> inline_step (str ''`c`'' @ str '' d'') = (Code (str ''c''), str '' d'')
   \<and> parseInline (str ''`c`'') = [Code (str ''c'')]
   \<and> parseInline (str ''a **b** `c` [x](y) *'') =
       [Text (str ''a ''), Bold (str ''b''), Text (str '' ''), Code (str ''c''), Text (str '' ''),
        Link (str ''x'') (str ''y''), Text (str '' *'')]
   \<and> parses [Text (str ''a ''), Bold (str ''b''), Text (str '' ''), Code (str ''c''),
              Text (str '' ''), Link (str ''x'') (str ''y''), Text (str '' *'')]
        (str ''a **b** `c` [x](y) *'')
   \<and> covers [Text (str ''a ''), Bold (str ''b''), Text (str '' ''), Code (str ''c''),
              Text (str '' ''), Link (str ''x'') (str ''y''), Text (str '' *'')]
        (str ''a **b** `c` [x](y) *'')
   \<and> str ''a **b** `c` [x](y) *'' \<noteq> []
   \<and> no_adjacent_text [Text (str ''a ''), Bold (str ''b''), Text (str '' ''), Code (str ''c''),
              Text (str '' ''), Link (str ''x'') (str ''y''), Text (str '' *'')]
   \<and> Text [] \<notin> set [Text (str ''a ''), Bold (str ''b''), Text (str '' ''), Code (str ''c''),
              Text (str '' ''), Link (str ''x'') (str ''y''), Text (str '' *'')]
   \<and> [Text (str ''a ''), Bold (str ''b''), Text (str '' ''), Code (str ''c''),
              Text (str '' ''), Link (str ''x'') (str ''y''), Text (str '' *'')] =
       parseInline (str ''a **b** `c` [x](y) *'')"
proof -
  have h1: "\<not> is_text (Code (str ''c''))" by simp
  have h2: "well_formed (Code (str ''c''))" by code_simp
  have h3: "str ''`c`'' \<in> set (source_forms (Code (str ''c'')))"
    by (simp add: source_forms_def str_def)
  have e: "parseInline (str ''a **b** `c` [x](y) *'') =
       [Text (str ''a ''), Bold (str ''b''), Text (str '' ''), Code (str ''c''), Text (str '' ''),
        Link (str ''x'') (str ''y''), Text (str '' *'')]" by code_simp
  note t = parseInline_covers[of "str ''a **b** `c` [x](y) *''" "Code (str ''c'')" "str ''`c`''"
              "str '' d''"]
  from t h1 h2 h3 have r: "inline_step (str ''`c`'' @ str '' d'') = (Code (str ''c''), str '' d'')"
    "parseInline (str ''`c`'') = [Code (str ''c'')]" by blast+
  from t have "parses (parseInline (str ''a **b** `c` [x](y) *'')) (str ''a **b** `c` [x](y) *'')"
    by blast
  then have p: "parses [Text (str ''a ''), Bold (str ''b''), Text (str '' ''), Code (str ''c''),
              Text (str '' ''), Link (str ''x'') (str ''y''), Text (str '' *'')]
        (str ''a **b** `c` [x](y) *'')"
    unfolding e .
  from t have "covers (parseInline (str ''a **b** `c` [x](y) *'')) (str ''a **b** `c` [x](y) *'')"
    by blast
  then have c: "covers [Text (str ''a ''), Bold (str ''b''), Text (str '' ''), Code (str ''c''),
              Text (str '' ''), Link (str ''x'') (str ''y''), Text (str '' *'')]
        (str ''a **b** `c` [x](y) *'')"
    unfolding e .
  have h4: "str ''a **b** `c` [x](y) *'' \<noteq> []" by (simp add: str_def)
  have h5: "no_adjacent_text [Text (str ''a ''), Bold (str ''b''), Text (str '' ''), Code (str ''c''),
              Text (str '' ''), Link (str ''x'') (str ''y''), Text (str '' *'')]"
    by simp
  have h6: "Text [] \<notin> set [Text (str ''a ''), Bold (str ''b''), Text (str '' ''), Code (str ''c''),
              Text (str '' ''), Link (str ''x'') (str ''y''), Text (str '' *'')]"
    by (simp add: str_def)
  note u = parseInline_covers[of "str ''a **b** `c` [x](y) *''" "Code (str ''c'')" "str ''`c`''"
              "str '' d''" "[Text (str ''a ''), Bold (str ''b''), Text (str '' ''), Code (str ''c''),
              Text (str '' ''), Link (str ''x'') (str ''y''), Text (str '' *'')]"]
  from u h4 p h5 h6 have q: "[Text (str ''a ''), Bold (str ''b''), Text (str '' ''), Code (str ''c''),
              Text (str '' ''), Link (str ''x'') (str ''y''), Text (str '' *'')] =
       parseInline (str ''a **b** `c` [x](y) *'')"
    by blast
  from h1 h2 h3 r e p c h4 h5 h6 q show ?thesis by (intro conjI)
qed

text \<open>
  \<^bold>\<open>C3\<close> (code blocks are verbatim).  When the trimmed line \<open>i\<close> starts with the fence,
  \<^verbatim>\<open>parseLine\<close> returns a codeblock node whose content is the raw, untrimmed lines after
  line \<open>i\<close> up to the first one whose trimmed form starts with the fence (\<open>body\<close>), with
  no inline parsing: the first line followed by every other line with one line feed before
  it.  Splitting the content at the line feeds gives back the body, when the body is not
  empty and its lines hold no line feed (as the lines of a split text do).  The language is
  what follows the opening fence, trimmed.  The closing fence is consumed and is not part
  of the content.  With no closing fence all the remaining lines are the content.
\<close>

theorem parseLine_codeblock_verbatim:
  assumes "i < length lines"
    and "PATTERNS_codeBlockStart (trim (lines ! i))"
    and "body = takeWhile (\<lambda>l. \<not> PATTERNS_codeBlockStart (trim l)) (drop (i + 1) lines)"
    and "content = (case body of [] \<Rightarrow> [] | l # rest \<Rightarrow> l @ concat (map (\<lambda>x. 0x0A # x) rest))"
  shows "parseLine lines i =
           Some (Some (Codeblock (trim (drop 3 (trim (lines ! i)))) content),
                 i + 1 + length body + 1)
         \<and> (body \<noteq> [] \<and> (\<forall>l\<in>set body. 0x0A \<notin> set l) \<longrightarrow> split_lines content = body)
         \<and> (i + 1 + length body < length lines
              \<longrightarrow> PATTERNS_codeBlockStart (trim (lines ! (i + 1 + length body))))
         \<and> ((\<forall>l\<in>set (drop (i + 1) lines). \<not> PATTERNS_codeBlockStart (trim l))
              \<longrightarrow> body = drop (i + 1) lines)"
proof (intro conjI impI)
  have c: "content = join_lines body" unfolding assms(4) by (rule join_lines_separator[symmetric])
  have ne: "trim (lines ! i) \<noteq> []"
    using assms(2) by (auto simp: PATTERNS_codeBlockStart_def startsWith_def)
  from assms(1) have le: "i + 1 \<le> length lines" by simp
  have "parseCodeBlock lines i =
          Some (Some (Codeblock (trim (drop 3 (trim (lines ! i)))) content),
                i + 1 + length body + 1)"
    using assms(1) unfolding parseCodeBlock_def line_at_def code_loop_takeWhile[OF le] assms(3) c
    by (simp add: Let_def)
  then show "parseLine lines i =
           Some (Some (Codeblock (trim (drop 3 (trim (lines ! i)))) content),
                 i + 1 + length body + 1)"
    using assms(1,2) ne by (simp add: parseLine_def line_at_def Let_def)
  show "split_lines content = body" if "body \<noteq> [] \<and> (\<forall>l\<in>set body. 0x0A \<notin> set l)"
    using that unfolding c by (simp add: split_lines_join_lines)
next
  assume lt: "i + 1 + length body < length lines"
  let ?P = "\<lambda>l. \<not> PATTERNS_codeBlockStart (trim l)"
  have "length (takeWhile ?P (drop (i + 1) lines)) < length (drop (i + 1) lines)"
    using lt assms(3) by simp
  from nth_length_takeWhile[OF this]
  have "\<not> ?P (drop (i + 1) lines ! length body)" using assms(3) by simp
  moreover have "drop (i + 1) lines ! length body = lines ! (i + 1 + length body)"
    using lt by simp
  ultimately show "PATTERNS_codeBlockStart (trim (lines ! (i + 1 + length body)))" by simp
next
  assume "\<forall>l\<in>set (drop (i + 1) lines). \<not> PATTERNS_codeBlockStart (trim l)"
  then show "body = drop (i + 1) lines" using assms(3) by simp
qed

theorem parseLine_codeblock_verbatim_witness:
  "0 < length (split_lines (str ''```js\<newline>  *a* \<newline># b\<newline>```\<newline>x''))
   \<and> PATTERNS_codeBlockStart
        (trim (split_lines (str ''```js\<newline>  *a* \<newline># b\<newline>```\<newline>x'') ! 0))
   \<and> [str ''  *a* '', str ''# b'']
        = takeWhile (\<lambda>l. \<not> PATTERNS_codeBlockStart (trim l))
            (drop (0 + 1) (split_lines (str ''```js\<newline>  *a* \<newline># b\<newline>```\<newline>x'')))
   \<and> parseLine (split_lines (str ''```js\<newline>  *a* \<newline># b\<newline>```\<newline>x'')) 0
        = Some (Some (Codeblock (str ''js'') (str ''  *a* \<newline># b'')), 4)
   \<and> split_lines (str ''  *a* \<newline># b'') = [str ''  *a* '', str ''# b'']
   \<and> parseMarkdown (str ''```js\<newline>  *a* \<newline># b\<newline>```\<newline>x'')
        = Some [Codeblock (str ''js'') (str ''  *a* \<newline># b''), Paragraph [Text (str ''x'')]]"
proof -
  let ?L = "split_lines (str ''```js\<newline>  *a* \<newline># b\<newline>```\<newline>x'')"
  have a: "0 < length ?L" by code_simp
  have b: "PATTERNS_codeBlockStart (trim (?L ! 0))" by code_simp
  have c: "[str ''  *a* '', str ''# b'']
             = takeWhile (\<lambda>l. \<not> PATTERNS_codeBlockStart (trim l)) (drop (0 + 1) ?L)"
    by code_simp
  have d: "trim (drop 3 (trim (?L ! 0))) = str ''js''" by code_simp
  have k: "str ''  *a* \<newline># b''
             = (case [str ''  *a* '', str ''# b''] of [] \<Rightarrow> []
                | l # rest \<Rightarrow> l @ concat (map (\<lambda>x. 0x0A # x) rest))"
    by (simp add: str_def)
  have f: "\<forall>l\<in>set [str ''  *a* '', str ''# b'']. 0x0A \<notin> set l" by (simp add: str_def)
  have m: "parseMarkdown (str ''```js\<newline>  *a* \<newline># b\<newline>```\<newline>x'')
        = Some [Codeblock (str ''js'') (str ''  *a* \<newline># b''), Paragraph [Text (str ''x'')]]"
    by code_simp
  note t = parseLine_codeblock_verbatim[OF a b c k]
  from t have "parseLine ?L 0 = Some (Some (Codeblock (trim (drop 3 (trim (?L ! 0))))
                 (str ''  *a* \<newline># b'')), 0 + 1 + length [str ''  *a* '', str ''# b''] + 1)"
    by (rule conjunct1)
  then have p: "parseLine ?L 0 = Some (Some (Codeblock (str ''js'') (str ''  *a* \<newline># b'')), 4)"
    unfolding d by simp
  from t f have s: "split_lines (str ''  *a* \<newline># b'') = [str ''  *a* '', str ''# b'']"
    by simp
  from a b c p s m show ?thesis by (intro conjI)
qed

text \<open>
  \<^bold>\<open>C4\<close> (one level of nesting).  In every document \<^verbatim>\<open>parseMarkdown\<close> returns, the nested
  list of a list item, when there is one, is a list node whose \<^verbatim>\<open>ordered\<close> flag is the
  negation of the enclosing list's, and none of its items has a nested list.  The input
  of the spec's second example gives one unordered list of three items, the second of
  which carries an ordered nested list of two items.
\<close>

theorem nested_list_one_level:
  "(\<forall>nodes. parseMarkdown S = Some nodes \<longrightarrow> (\<forall>b\<in>set nodes. nesting_ok b))
   \<and> parseMarkdown (str ''- a\<newline>- b\<newline>  1. x\<newline>  2. y\<newline>- c'') =
       Some [ListNode False
              [ListItem [Text (str ''a'')] None,
               ListItem [Text (str ''b'')]
                 (Some (ListNode True [ListItem [Text (str ''x'')] None,
                                       ListItem [Text (str ''y'')] None])),
               ListItem [Text (str ''c'')] None]]"
proof (intro conjI allI impI)
  fix nodes assume "parseMarkdown S = Some nodes"
  then have "list_all nesting_ok nodes"
    unfolding parseMarkdown_def
    by (rule parse_loop_invariant) (auto intro: parseLine_nesting)
  then show "\<forall>b\<in>set nodes. nesting_ok b" by (simp add: list_all_iff)
next
  show "parseMarkdown (str ''- a\<newline>- b\<newline>  1. x\<newline>  2. y\<newline>- c'') =
       Some [ListNode False
              [ListItem [Text (str ''a'')] None,
               ListItem [Text (str ''b'')]
                 (Some (ListNode True [ListItem [Text (str ''x'')] None,
                                       ListItem [Text (str ''y'')] None])),
               ListItem [Text (str ''c'')] None]]"
    by code_simp
qed

theorem nested_list_one_level_witness:
  "parseMarkdown (str ''1. a\<newline>- x\<newline>- y'') =
     Some [ListNode True
            [ListItem [Text (str ''a'')]
               (Some (ListNode False [ListItem [Text (str ''x'')] None,
                                      ListItem [Text (str ''y'')] None]))]]
   \<and> nesting_ok (ListNode True
            [ListItem [Text (str ''a'')]
               (Some (ListNode False [ListItem [Text (str ''x'')] None,
                                      ListItem [Text (str ''y'')] None]))])"
proof -
  have e: "parseMarkdown (str ''1. a\<newline>- x\<newline>- y'') =
     Some [ListNode True
            [ListItem [Text (str ''a'')]
               (Some (ListNode False [ListItem [Text (str ''x'')] None,
                                      ListItem [Text (str ''y'')] None]))]]"
    by code_simp
  from nested_list_one_level[of "str ''1. a\<newline>- x\<newline>- y''"]
  have "\<forall>nodes. parseMarkdown (str ''1. a\<newline>- x\<newline>- y'') = Some nodes
          \<longrightarrow> (\<forall>b\<in>set nodes. nesting_ok b)"
    by (rule conjunct1)
  with e have "\<forall>b\<in>set [ListNode True
            [ListItem [Text (str ''a'')]
               (Some (ListNode False [ListItem [Text (str ''x'')] None,
                                      ListItem [Text (str ''y'')] None]))]]. nesting_ok b"
    by blast
  then show ?thesis using e by (simp del: nesting_ok.simps)
qed

text \<open>
  \<^bold>\<open>C5\<close> (no two adjacent text nodes).  In the sequence \<^verbatim>\<open>parseInline\<close> returns no two
  consecutive nodes are both text nodes, and so in every children sequence of every block
  \<^verbatim>\<open>parseMarkdown\<close> returns: headings, paragraphs, blockquotes, list items and the items
  of their nested lists.  A text token that follows a text node is merged into it, the
  content of the merged node being the concatenation of the two.
\<close>

theorem parseInline_no_two_adjacent_text:
  "no_adjacent_text (parseInline S)
   \<and> (\<forall>nodes. parseMarkdown S = Some nodes \<longrightarrow>
         (\<forall>b\<in>set nodes. \<forall>children\<in>set (block_children b). no_adjacent_text children))
   \<and> merge_step (acc @ [Text c0]) (Text c) = acc @ [Text (c0 @ c)]"
proof (intro conjI allI impI)
  show "no_adjacent_text (parseInline S)" by (rule parseInline_no_adjacent)
next
  fix nodes assume "parseMarkdown S = Some nodes"
  then show "\<forall>b\<in>set nodes. \<forall>children\<in>set (block_children b). no_adjacent_text children"
    by (rule parseMarkdown_children[of no_adjacent_text, OF parseInline_no_adjacent])
next
  show "merge_step (acc @ [Text c0]) (Text c) = acc @ [Text (c0 @ c)]" by simp
qed

theorem parseInline_no_two_adjacent_text_witness:
  "parseMarkdown (str ''# a*b'') = Some [Heading 1 [Text (str ''a*b'')]]
   \<and> no_adjacent_text [Text (str ''a*b'')]
   \<and> no_adjacent_text (parseInline (str ''a*b _c_ d''))"
proof -
  have e: "parseMarkdown (str ''# a*b'') = Some [Heading 1 [Text (str ''a*b'')]]"
    by code_simp
  from parseInline_no_two_adjacent_text[of "str ''# a*b''" "[]" "[]" "[]"]
  have "\<forall>b\<in>set [Heading 1 [Text (str ''a*b'')]].
          \<forall>children\<in>set (block_children b). no_adjacent_text children"
    using e by blast
  then have "no_adjacent_text [Text (str ''a*b'')]" by simp
  moreover from parseInline_no_two_adjacent_text[of "str ''a*b _c_ d''" "[]" "[]" "[]"]
  have "no_adjacent_text (parseInline (str ''a*b _c_ d''))" by (rule conjunct1)
  ultimately show ?thesis using e by simp
qed

text \<open>
  \<^bold>\<open>C6\<close> (list continuation).  Wherever the list parser stands, two item lines of the
  same marker pattern with one blank line between them become two consecutive items of the
  same list: of the list being built by the outer loop when they match its main pattern,
  of the same nested list when they match the nested pattern.  A blank line followed by a
  second blank line or by a line that is no list item stops both loops at that blank line;
  so an item followed by such a blank line is the last item of its list, and the index
  returned is that of the blank line.
\<close>

theorem single_blank_line_keeps_list:
  "(item_at (mainPattern isOrdered) lines i g1 \<and> blank_at lines (i + 1)
      \<and> item_at (mainPattern isOrdered) lines (i + 2) g2
      \<longrightarrow> (\<exists>nestedItems rest.
             snd (main_loop lines isOrdered i items)
               = items @ [mk_item isOrdered g1 [], mk_item isOrdered g2 nestedItems] @ rest))
   \<and> (item_at (nestedPattern isOrdered) lines i g1 \<and> blank_at lines (i + 1)
      \<and> item_at (nestedPattern isOrdered) lines (i + 2) g2
      \<longrightarrow> (\<exists>rest. snd (nested_loop lines isOrdered i acc)
             = acc @ [ListItem (parseInline g1) None, ListItem (parseInline g2) None] @ rest))
   \<and> (blank_at lines j \<and> (blank_at lines (j + 1) \<or> nonlist_at lines (j + 1))
      \<longrightarrow> nested_loop lines isOrdered j acc = (j, acc)
          \<and> main_loop lines isOrdered j items = (j, items))
   \<and> (item_at (mainPattern isOrdered) lines i g1 \<and> blank_at lines (i + 1)
      \<and> (blank_at lines (i + 2) \<or> nonlist_at lines (i + 2))
      \<longrightarrow> main_loop lines isOrdered i items = (i + 1, items @ [mk_item isOrdered g1 []]))"
proof (intro conjI impI)
  assume "item_at (mainPattern isOrdered) lines i g1 \<and> blank_at lines (i + 1)
      \<and> item_at (mainPattern isOrdered) lines (i + 2) g2"
  then show "\<exists>nestedItems rest.
             snd (main_loop lines isOrdered i items)
               = items @ [mk_item isOrdered g1 [], mk_item isOrdered g2 nestedItems] @ rest"
    using main_items_across_blank by blast
next
  assume "item_at (nestedPattern isOrdered) lines i g1 \<and> blank_at lines (i + 1)
      \<and> item_at (nestedPattern isOrdered) lines (i + 2) g2"
  then show "\<exists>rest. snd (nested_loop lines isOrdered i acc)
             = acc @ [ListItem (parseInline g1) None, ListItem (parseInline g2) None] @ rest"
    using nested_items_across_blank by blast
next
  assume a: "blank_at lines j \<and> (blank_at lines (j + 1) \<or> nonlist_at lines (j + 1))"
  then have n: "\<not> list_item_at lines (j + 1)" using not_list_item_cases by blast
  from a have b: "blank_at lines j" by simp
  show "nested_loop lines isOrdered j acc = (j, acc)" by (rule loops_stop_at_blank(1)[OF b n])
  show "main_loop lines isOrdered j items = (j, items)" by (rule loops_stop_at_blank(2)[OF b n])
next
  assume a: "item_at (mainPattern isOrdered) lines i g1 \<and> blank_at lines (i + 1)
      \<and> (blank_at lines (i + 2) \<or> nonlist_at lines (i + 2))"
  then have n: "\<not> list_item_at lines (i + 1 + 1)" using not_list_item_cases[of lines "i + 2"] by simp
  from a have "item_at (mainPattern isOrdered) lines i g1" "blank_at lines (i + 1)" by simp_all
  from main_item_then_stop[OF this n]
  show "main_loop lines isOrdered i items = (i + 1, items @ [mk_item isOrdered g1 []])" .
qed

theorem single_blank_line_keeps_list_witness:
  "item_at (mainPattern False) (split_lines (str ''- a\<newline>\<newline>- b\<newline>\<newline>\<newline>- c'')) 0 (str ''a'')
   \<and> blank_at (split_lines (str ''- a\<newline>\<newline>- b\<newline>\<newline>\<newline>- c'')) 1
   \<and> item_at (mainPattern False) (split_lines (str ''- a\<newline>\<newline>- b\<newline>\<newline>\<newline>- c'')) 2 (str ''b'')
   \<and> blank_at (split_lines (str ''- a\<newline>\<newline>- b\<newline>\<newline>\<newline>- c'')) 3
   \<and> blank_at (split_lines (str ''- a\<newline>\<newline>- b\<newline>\<newline>\<newline>- c'')) 4
   \<and> (\<exists>nestedItems rest.
         snd (main_loop (split_lines (str ''- a\<newline>\<newline>- b\<newline>\<newline>\<newline>- c'')) False 0 [])
           = [] @ [mk_item False (str ''a'') [], mk_item False (str ''b'') nestedItems] @ rest)
   \<and> main_loop (split_lines (str ''- a\<newline>\<newline>- b\<newline>\<newline>\<newline>- c'')) False 2 []
        = (2 + 1, [] @ [mk_item False (str ''b'') []])
   \<and> parseMarkdown (str ''- a\<newline>\<newline>- b\<newline>\<newline>\<newline>- c'')
        = Some [ListNode False [ListItem [Text (str ''a'')] None, ListItem [Text (str ''b'')] None],
                ListNode False [ListItem [Text (str ''c'')] None]]"
proof -
  let ?L = "split_lines (str ''- a\<newline>\<newline>- b\<newline>\<newline>\<newline>- c'')"
  have h0: "item_at (mainPattern False) ?L 0 (str ''a'')" by code_simp
  have h1: "blank_at ?L (0 + 1)" by code_simp
  have h2: "item_at (mainPattern False) ?L (0 + 2) (str ''b'')" by code_simp
  have h2': "item_at (mainPattern False) ?L 2 (str ''b'')" by code_simp
  have h3: "blank_at ?L (2 + 1)" by code_simp
  have h4: "blank_at ?L (2 + 2)" by code_simp
  have e: "parseMarkdown (str ''- a\<newline>\<newline>- b\<newline>\<newline>\<newline>- c'')
        = Some [ListNode False [ListItem [Text (str ''a'')] None, ListItem [Text (str ''b'')] None],
                ListNode False [ListItem [Text (str ''c'')] None]]" by code_simp
  from single_blank_line_keeps_list[of False ?L 0 "str ''a''" "str ''b''" "[]"] h0 h1 h2
  have c1: "\<exists>nestedItems rest.
         snd (main_loop ?L False 0 [])
           = [] @ [mk_item False (str ''a'') [], mk_item False (str ''b'') nestedItems] @ rest"
    by blast
  from single_blank_line_keeps_list[of False ?L 2 "str ''b''" _ "[]"] h2' h3 h4
  have c4: "main_loop ?L False 2 [] = (2 + 1, [] @ [mk_item False (str ''b'') []])"
    by blast
  from h0 h1 h2' h3 h4 c1 c4 e show ?thesis by simp
qed

text \<open>
  \<^bold>\<open>C7\<close> as stated fails: \<^verbatim>\<open>peekNextNonEmpty\<close> reads the one line after the blank line,
  not the next non-blank line.  After \<^verbatim>\<open>- a\<close>, two blank lines and \<^verbatim>\<open>- b\<close>, the next
  non-blank line after the blank run matches the main pattern, yet the list started at
  line 0 ends at the first blank line and \<^verbatim>\<open>- b\<close> starts a second list.
\<close>

theorem blank_run_stops_list_counterexample:
  "blank_at (split_lines (str ''- a\<newline>\<newline>\<newline>- b'')) 1
   \<and> blank_at (split_lines (str ''- a\<newline>\<newline>\<newline>- b'')) 2
   \<and> item_at (mainPattern False) (split_lines (str ''- a\<newline>\<newline>\<newline>- b'')) 3 (str ''b'')
   \<and> parseLine (split_lines (str ''- a\<newline>\<newline>\<newline>- b'')) 0
        = Some (Some (ListNode False [ListItem [Text (str ''a'')] None]), 1)
   \<and> parseMarkdown (str ''- a\<newline>\<newline>\<newline>- b'')
        = Some [ListNode False [ListItem [Text (str ''a'')] None],
                ListNode False [ListItem [Text (str ''b'')] None]]"
  by code_simp

text \<open>
  \<^bold>\<open>C7\<close> as amended.  A blank line does not end the list when the line directly after it
  matches the main or the nested marker pattern: on a list-item line \<^verbatim>\<open>parseLine\<close> returns
  a node and an index past that line at which the list \<open>stops_here\<close>, that is the end of
  the input or a line that is no list item and is not a blank line directly followed by a
  list item; and the inner loop, standing at a blank line directly followed by a list
  item, moves on to that item.
\<close>

theorem list_stops_only_where_not_continued:
  "(list_item_at lines i
      \<longrightarrow> (\<exists>node n. parseLine lines i = Some (Some node, n) \<and> i < n \<and> stops_here lines n))
   \<and> (blank_at lines j \<and> list_item_at lines (j + 1)
      \<longrightarrow> nested_loop lines isOrdered j acc = nested_loop lines isOrdered (j + 1) acc)"
  using parseList_stops[of lines i] parseLine_list_item[of lines i]
    nested_loop_skips_blank[of lines j isOrdered acc]
  by (intro conjI impI) simp_all

theorem list_stops_only_where_not_continued_witness:
  "list_item_at (split_lines (str ''- a\<newline>\<newline>- b\<newline>x'')) 0
   \<and> blank_at (split_lines (str ''- a\<newline>\<newline>- b\<newline>x'')) 1
   \<and> list_item_at (split_lines (str ''- a\<newline>\<newline>- b\<newline>x'')) 2
   \<and> parseLine (split_lines (str ''- a\<newline>\<newline>- b\<newline>x'')) 0
        = Some (Some (ListNode False [ListItem [Text (str ''a'')] None,
                                      ListItem [Text (str ''b'')] None]), 3)
   \<and> stops_here (split_lines (str ''- a\<newline>\<newline>- b\<newline>x'')) 3"
proof -
  let ?L = "split_lines (str ''- a\<newline>\<newline>- b\<newline>x'')"
  have h: "list_item_at ?L 0" by code_simp
  have b: "blank_at ?L 1" by code_simp
  have c: "list_item_at ?L 2" by code_simp
  have e: "parseLine ?L 0 = Some (Some (ListNode False [ListItem [Text (str ''a'')] None,
                                      ListItem [Text (str ''b'')] None]), 3)" by code_simp
  from list_stops_only_where_not_continued[of ?L 0] h
  obtain node n where "parseLine ?L 0 = Some (Some node, n)" "stops_here ?L n" by blast
  with e have "stops_here ?L 3" by simp
  with h b c e show ?thesis by (intro conjI)
qed

text \<open>
  \<^bold>\<open>C8\<close> as stated fails: a line that is not empty but is empty once trimmed gives no
  node at all, since \<^verbatim>\<open>parseLine\<close> tests the trimmed line (\<^verbatim>\<open>if (!line)\<close>) before any
  other rule.
\<close>

theorem whitespace_only_line_counterexample:
  "str '' '' \<noteq> [] \<and> trim (str '' '') = []
   \<and> parseLine [str '' ''] 0 = Some (None, 1)
   \<and> parseMarkdown (str '' '') = Some []"
  by code_simp

text \<open>
  \<^bold>\<open>C8\<close> as amended.  A line whose trimmed form is empty, whether it was empty or held
  only white space before trimming, gives no node and is skipped (the index moves by one).
  A paragraph is only ever emitted for a line whose trimmed form is not empty, and its
  children are the inline parse of the trimmed line.
\<close>

theorem parseLine_blank_skipped:
  assumes "i < length lines"
  shows "(trim (lines ! i) = [] \<longrightarrow> parseLine lines i = Some (None, i + 1))
         \<and> (\<forall>children n. parseLine lines i = Some (Some (Paragraph children), n)
               \<longrightarrow> trim (lines ! i) \<noteq> [] \<and> children = parseInline (trim (lines ! i))
                   \<and> n = i + 1)"
proof (intro conjI impI allI)
  assume "trim (lines ! i) = []"
  with assms show "parseLine lines i = Some (None, i + 1)"
    by (simp add: parseLine_def line_at_def)
next
  fix children n
  assume p: "parseLine lines i = Some (Some (Paragraph children), n)"
  have l: "line_at lines i = Some (lines ! i)" using assms by (simp add: line_at_def)
  have cb: "parseCodeBlock lines i \<noteq> Some (Some (Paragraph children), n)"
    by (simp add: parseCodeBlock_def l Let_def case_prod_beta)
  have bq: "parseBlockquote lines i \<noteq> Some (Some (Paragraph children), n)"
    by (simp add: parseBlockquote_def Let_def case_prod_beta)
  have pl: "parseList lines i \<noteq> Some (Some (Paragraph children), n)"
    using parseList_Some[OF l] by simp
  show "trim (lines ! i) \<noteq> []" using p l by (auto simp: parseLine_def)
  show "children = parseInline (trim (lines ! i))" "n = i + 1"
    using p l cb bq pl by (auto simp: parseLine_def Let_def split: if_splits option.splits)
qed

theorem parseLine_blank_skipped_witness:
  "0 < length [str '' ''] \<and> trim ([str '' ''] ! 0) = []
   \<and> parseLine [str '' ''] 0 = Some (None, 0 + 1)"
proof -
  have a: "0 < length [str '' '']" by simp
  have b: "trim ([str '' ''] ! 0) = []" by code_simp
  from parseLine_blank_skipped[OF a] b
  have "parseLine [str '' ''] 0 = Some (None, 0 + 1)" by blast
  with a b show ?thesis by (intro conjI)
qed

text \<open>
  \<^bold>\<open>C9\<close> (progress of the tokenizer).  Every turn of the loop of \<^verbatim>\<open>parseInline\<close> on a
  non-empty \<^verbatim>\<open>remaining\<close> leaves a proper suffix of it: a non-empty prefix is consumed,
  by a rule or by the plain-text fallback.  Hence the loop ends: after at most
  \<open>length remaining\<close> turns nothing remains.
\<close>

theorem inline_step_strictly_shrinks:
  "(remaining \<noteq> [] \<longrightarrow>
      (\<exists>consumed. consumed \<noteq> [] \<and> remaining = consumed @ snd (inline_step remaining))
      \<and> length (snd (inline_step remaining)) < length remaining)
   \<and> (\<exists>n\<le>length remaining. ((\<lambda>r. snd (inline_step r)) ^^ n) remaining = [])"
proof (intro conjI impI)
  assume ne: "remaining \<noteq> []"
  from inline_step_suffix[of remaining] ne
  show "\<exists>consumed. consumed \<noteq> [] \<and> remaining = consumed @ snd (inline_step remaining)"
    by blast
  from inline_step_shrinks[OF ne]
  show "length (snd (inline_step remaining)) < length remaining" .
next
  show "\<exists>n\<le>length remaining. ((\<lambda>r. snd (inline_step r)) ^^ n) remaining = []"
    by (rule iterate_to_empty)
qed

theorem inline_step_strictly_shrinks_witness:
  "str ''*a'' \<noteq> [] \<and> inline_step (str ''*a'') = (Text (str ''*''), str ''a'')
   \<and> length (snd (inline_step (str ''*a''))) < length (str ''*a'')"
proof -
  have s: "inline_step (str ''*a'') = (Text (str ''*''), str ''a'')" by code_simp
  have ne: "str ''*a'' \<noteq> []" by (simp add: str_def)
  from inline_step_strictly_shrinks[of "str ''*a''"] ne
  have "length (snd (inline_step (str ''*a''))) < length (str ''*a'')" by (elim conjE impE) assumption
  with s ne show ?thesis by (intro conjI)
qed

text \<open>
  \<^bold>\<open>C10\<close> (at least one child).  \<^verbatim>\<open>parseInline\<close> of the empty string is exactly one
  empty text node; \<^verbatim>\<open>parseInline\<close> never returns an empty sequence, so every children
  sequence of every block \<^verbatim>\<open>parseMarkdown\<close> returns holds at least one child.
\<close>

theorem parseInline_never_empty:
  "parseInline [] = [Text []] \<and> parseInline S \<noteq> []
   \<and> (\<forall>nodes. parseMarkdown S = Some nodes \<longrightarrow>
         (\<forall>b\<in>set nodes. \<forall>children\<in>set (block_children b). children \<noteq> []))"
proof (intro conjI allI impI)
  show "parseInline [] = [Text []]" by (simp add: parseInline_def)
  show "parseInline S \<noteq> []" by (rule parseInline_nonempty)
next
  fix nodes assume "parseMarkdown S = Some nodes"
  then show "\<forall>b\<in>set nodes. \<forall>children\<in>set (block_children b). children \<noteq> []"
    by (rule parseMarkdown_children[of "\<lambda>ch. ch \<noteq> []", OF parseInline_nonempty])
qed

theorem parseInline_never_empty_witness:
  "parseMarkdown (str ''>'') = Some [Blockquote [Text []]]
   \<and> block_children (Blockquote [Text []]) = [[Text []]] \<and> [Text ([] :: jsstring)] \<noteq> []"
proof -
  have e: "parseMarkdown (str ''>'') = Some [Blockquote [Text []]]" by code_simp
  from parseInline_never_empty[of "str ''>''"]
  have "\<forall>b\<in>set [Blockquote [Text []]]. \<forall>children\<in>set (block_children b). children \<noteq> []"
    using e by blast
  then have "[Text ([] :: jsstring)] \<noteq> []" by simp
  with e show ?thesis by simp
qed

end
